theory Spec2Isabelle
  imports Complex_Main "HOL-Library.Word"
begin

section \<open>A shallow embedding of \<open>ns3/scratch/tcp_multi.cc\<close>\<close>

text \<open>
  The harness drives several TCP flows over one bottleneck inside the ns-3 simulator and
  samples per-flow metrics into CSV files. The embedding follows the source function by
  function. What belongs to the simulator (the TypeId registry, the file system, the
  conversion of seconds to simulator ticks, the trace events it delivers) is a parameter
  of the model.
\<close>

subsection \<open>Machine types\<close>

type_synonym u32 = "32 word"
type_synonym u64 = "64 word"

text \<open>
  \<open>NS_FATAL_ERROR\<close> aborts the process with a message. Reading \<open>back()\<close> of an empty
  \<open>std::vector\<close> has no defined result in C++; the model makes that a value too.
\<close>

datatype error = Fatal string | UndefinedBehaviour string

text \<open>
  A C++ \<open>double\<close>. Every double the harness starts from is finite (a converted unsigned
  integer, the literal 1500.0, or the parsed \<open>sampleDt\<close>), so the operands of its
  arithmetic are modelled as \<open>real\<close>, and a result as a \<open>double\<close>: a number, an infinity
  or a NaN. A product or quotient beyond the largest double \<open>DBL_MAX\<close> is an infinity,
  and a zero divisor gives an infinity or a NaN as in IEEE 754 (HOL's own \<open>x / 0 = 0\<close>
  would hide it). The rounding of a result within range and the sign of a zero are not
  modelled.
\<close>

datatype double = Finite real | PosInf | NegInf | NaN

definition DBL_MAX :: real where
  "DBL_MAX = (2 ^ 53 - 1) * 2 ^ 971"

text \<open>The double for an exact result \<open>r\<close>.\<close>

definition overflow :: "real \<Rightarrow> double" where
  "overflow r = (if DBL_MAX < r then PosInf else if r < - DBL_MAX then NegInf else Finite r)"

definition dmul :: "real \<Rightarrow> real \<Rightarrow> double" where
  "dmul x y = overflow (x * y)"

text \<open>
  The quotient of two finite doubles. A dividend is a double, so its magnitude is at most
  \<open>DBL_MAX\<close>; for a real number beyond that, which no double is, the definition returns
  the quotient itself.
\<close>

definition ddiv :: "real \<Rightarrow> real \<Rightarrow> double" where
  "ddiv x y =
     (if y = 0 then (if 0 < x then PosInf else if x < 0 then NegInf else NaN)
      else if \<bar>x\<bar> \<le> DBL_MAX then overflow (x / y)
      else Finite (x / y))"

text \<open>
  The operator \<open>/\<close> on two results: a number over an infinity is zero, an infinity over
  a number is an infinity, and a NaN or two infinities give a NaN.
\<close>

fun ddiv_double :: "double \<Rightarrow> double \<Rightarrow> double" where
  "ddiv_double (Finite x) (Finite y) = ddiv x y"
| "ddiv_double (Finite x) PosInf = Finite 0"
| "ddiv_double (Finite x) NegInf = Finite 0"
| "ddiv_double PosInf (Finite y) = (if 0 \<le> y then PosInf else NegInf)"
| "ddiv_double NegInf (Finite y) = (if 0 \<le> y then NegInf else PosInf)"
| "ddiv_double PosInf PosInf = NaN"
| "ddiv_double PosInf NegInf = NaN"
| "ddiv_double NegInf PosInf = NaN"
| "ddiv_double NegInf NegInf = NaN"
| "ddiv_double NaN y = NaN"
| "ddiv_double PosInf NaN = NaN"
| "ddiv_double NegInf NaN = NaN"
| "ddiv_double (Finite x) NaN = NaN"

text \<open>The C++ comparisons \<open>v >= 0.0\<close> and \<open>v == 0.0\<close> on a double: false on a NaN.\<close>

fun ge_zero :: "double \<Rightarrow> bool" where
  "ge_zero (Finite r) = (0 \<le> r)"
| "ge_zero PosInf = True"
| "ge_zero NegInf = False"
| "ge_zero NaN = False"

fun eq_zero :: "double \<Rightarrow> bool" where
  "eq_zero (Finite r) = (r = 0)"
| "eq_zero PosInf = False"
| "eq_zero NegInf = False"
| "eq_zero NaN = False"

subsection \<open>\<open>Split\<close> (lines 21-27)\<close>

text \<open>
  \<open>while (std::getline(ss, x, d)) if (!x.empty()) out.push_back(x);\<close>
  The stream is the list of characters not yet read. \<open>getline\<close> fails, and the loop
  ends, when nothing is left; otherwise it reads up to the next delimiter and drops
  that delimiter.
\<close>

function getline_loop :: "string \<Rightarrow> char \<Rightarrow> string list \<Rightarrow> string list" where
  "getline_loop ss d out =
     (if ss = [] then out
      else (let x = takeWhile (\<lambda>c. c \<noteq> d) ss;
                ss' = drop 1 (dropWhile (\<lambda>c. c \<noteq> d) ss)
            in getline_loop ss' d (if x \<noteq> [] then out @ [x] else out)))"
  by pat_completeness auto
termination
proof (relation "measure (\<lambda>(ss, d, out). length ss)", goal_cases)
  case 1
  show ?case by simp
next
  case (2 ss d out x xa)
  have "length (dropWhile (\<lambda>c. c \<noteq> d) ss) \<le> length ss"
    by (rule length_dropWhile_le)
  moreover have "0 < length ss"
    using 2 by (cases ss) auto
  ultimately have "length (dropWhile (\<lambda>c. c \<noteq> d) ss) - 1 < length ss"
    by linarith
  then show ?case
    using 2 by simp
qed

declare getline_loop.simps [simp del]

definition Split :: "string \<Rightarrow> char \<Rightarrow> string list" where
  "Split s d = getline_loop s d []"

text \<open>
  What "a comma-separated list" means, for comparison with \<open>Split\<close>: the fields between
  the delimiters, empty ones included.
\<close>

fun split_fields :: "char \<Rightarrow> string \<Rightarrow> string list" where
  "split_fields d [] = [[]]"
| "split_fields d (c # cs) =
     (if c = d then [] # split_fields d cs
      else (case split_fields d cs of
              [] \<Rightarrow> [[c]]
            | f # fs \<Rightarrow> (c # f) # fs))"

subsection \<open>\<open>FlowCtx\<close> (lines 29-35) and its output stream\<close>

text \<open>
  A data row holds the five values \<open>DoSample\<close> hands to \<open>operator<<\<close>; the header is
  the literal text. The time is \<open>Simulator::Now().GetSeconds()\<close>, a double. The stream
  writes a double with six significant digits: \<open>shown_seconds\<close> below gives the time
  value as it stands in the file.
\<close>

record row =
  time :: real
  cwnd_pkts :: double
  throughput_mbps :: double
  buffer_pkts :: u32
  inflight_pkts :: double

datatype line = Text string | Row row

text \<open>
  A \<open>std::ofstream\<close>: the file it is attached to, whether that file is open, the
  stream's failure flag (what \<open>!csv\<close> tests), and the lines written so far.
\<close>

record ofstream =
  path :: string
  is_open :: bool
  failed :: bool
  written :: "line list"

definition ofstream_default :: ofstream where
  "ofstream_default = \<lparr>path = [], is_open = False, failed = False, written = []\<rparr>"

text \<open>\<open>csv.open(fn, std::ios::out)\<close>: truncates the file, or sets the failure flag.\<close>

definition ofstream_open :: "(string \<Rightarrow> bool) \<Rightarrow> string \<Rightarrow> ofstream \<Rightarrow> ofstream" where
  "ofstream_open can_open fn f =
     (if is_open f \<or> \<not> can_open fn then f\<lparr>failed := True\<rparr>
      else f\<lparr>path := fn, is_open := True, written := []\<rparr>)"

text \<open>\<open>csv << ...\<close>: a stream that is not open, or has failed, writes nothing.\<close>

definition ofstream_put :: "line \<Rightarrow> ofstream \<Rightarrow> ofstream" where
  "ofstream_put l f =
     (if is_open f \<and> \<not> failed f then f\<lparr>written := written f @ [l]\<rparr>
      else f\<lparr>failed := True\<rparr>)"

definition ofstream_close :: "ofstream \<Rightarrow> ofstream" where
  "ofstream_close f = f\<lparr>is_open := False\<rparr>"

record FlowCtx =
  algo :: string
  mssBytes :: real
  lastCwndBytes :: real
  inflightBytes :: real
  csv :: ofstream

text \<open>The default member initialisers of the struct.\<close>

definition FlowCtx_default :: FlowCtx where
  "FlowCtx_default =
     \<lparr>algo = [], mssBytes = 1500, lastCwndBytes = 1500, inflightBytes = 0,
      csv = ofstream_default\<rparr>"

subsection \<open>\<open>ResolveTcpTypeId\<close> (lines 86-105)\<close>

type_synonym TypeId = nat

definition ns3Name_of :: "string \<Rightarrow> string" where
  "ns3Name_of a =
     (if a = ''Reno'' then ''ns3::TcpNewReno''
      else if a = ''Cubic'' then ''ns3::TcpCubic''
      else if a = ''BBR'' then ''ns3::TcpBbr''
      else ''ns3::TcpNewReno'')"

definition fatal_message :: "string \<Rightarrow> string" where
  "fatal_message ns3Name =
     ''Could not resolve TCP TypeId for '' @ ns3Name @ '' or fallback TcpNewReno''"

definition warn_message :: "string \<Rightarrow> string" where
  "warn_message ns3Name = ns3Name @ '' not available; falling back to ns3::TcpNewReno.''"

text \<open>
  \<open>TypeId::LookupByNameFailSafe\<close> is the simulator's registry: a parameter, \<open>None\<close>
  where the lookup returns false. The result is the list of \<open>NS_LOG_WARN\<close> messages
  the call emits, and either the fatal error or the handle returned.
\<close>

definition ResolveTcpTypeId ::
  "(string \<Rightarrow> TypeId option) \<Rightarrow> string \<Rightarrow> string list \<times> (error + TypeId)" where
  "ResolveTcpTypeId LookupByNameFailSafe a =
     (let ns3Name = ns3Name_of a in
      case LookupByNameFailSafe ns3Name of
        Some tid \<Rightarrow> ([], Inr tid)
      | None \<Rightarrow>
          (if ns3Name \<noteq> ''ns3::TcpNewReno'' then
             (case LookupByNameFailSafe ''ns3::TcpNewReno'' of
                Some tid \<Rightarrow> ([warn_message ns3Name], Inr tid)
              | None \<Rightarrow> ([warn_message ns3Name], Inl (Fatal (fatal_message ns3Name))))
           else ([], Inl (Fatal (fatal_message ns3Name)))))"

subsection \<open>Global state and the trace callbacks (lines 37-48)\<close>

text \<open>
  What the simulator can execute on behalf of the harness: the three scheduled functions
  (\<open>DoSample\<close>, \<open>Simulator::Stop\<close>, \<open>HookSenderTraces\<close> for one flow), the three trace
  callbacks with their arguments, and a change of a router queue's occupancy (the queue
  discs belong to the simulator; the harness only reads \<open>GetNPackets\<close>).
\<close>

datatype event =
    DoSampleEv
  | StopEv
  | HookSenderTracesEv nat
  | CwndTraceEv nat u32 u32
  | InflightTraceEv nat u32 u32
  | RxTraceEv u32 u32
  | QueueEv nat u32

text \<open>
  The globals \<open>gRxBytes\<close>, \<open>gRxBytesPrev\<close> and \<open>gQdiscs\<close>, the vector \<open>ctx\<close> of
  \<open>main\<close> that the callbacks reach through pointers, what the harness has told the
  simulator (warnings logged, socket types set, trace paths connected), and the
  simulator's clock and event list. A queue disc pointer is \<open>None\<close> when null and
  otherwise carries the packet count \<open>GetNPackets\<close> returns. The last field is not a
  variable of the program: it is the record of the events the simulator has processed
  so far, with their times, kept so that properties of a run can speak of them.
\<close>

record state =
  gRxBytes :: "u32 \<rightharpoonup> u64"
  gRxBytesPrev :: "u32 \<rightharpoonup> u64"
  gQdiscs :: "u32 option list"
  ctx :: "FlowCtx list"
  warnings :: "string list"
  socketType :: "(string \<times> TypeId) list"
  connected :: "(string \<times> nat) list"
  now :: nat
  pending :: "(nat \<times> event) list"
  stopped :: bool
  executed :: "(nat \<times> event) list"

text \<open>\<open>std::map::operator[]\<close>: a missing key is inserted with the value 0.\<close>

definition map_index :: "('k \<rightharpoonup> u64) \<Rightarrow> 'k \<Rightarrow> u64 \<times> ('k \<rightharpoonup> u64)" where
  "map_index m k = (case m k of None \<Rightarrow> (0, m(k \<mapsto> 0)) | Some v \<Rightarrow> (v, m))"

text \<open>The pointer \<open>FlowCtx* ctx\<close> bound into a callback is the index of the flow.\<close>

definition CwndTrace :: "nat \<Rightarrow> u32 \<Rightarrow> u32 \<Rightarrow> state \<Rightarrow> state" where
  "CwndTrace i oldCwnd newCwnd st =
     st\<lparr>ctx := (ctx st)[i := (ctx st ! i)\<lparr>lastCwndBytes := real (unat newCwnd)\<rparr>]\<rparr>"

definition InflightTrace :: "nat \<Rightarrow> u32 \<Rightarrow> u32 \<Rightarrow> state \<Rightarrow> state" where
  "InflightTrace i oldVal newVal st =
     st\<lparr>ctx := (ctx st)[i := (ctx st ! i)\<lparr>inflightBytes := real (unat newVal)\<rparr>]\<rparr>"

definition RxTrace :: "u32 \<Rightarrow> u32 \<Rightarrow> state \<Rightarrow> state" where
  "RxTrace idx sz st =
     (let (v, m) = map_index (gRxBytes st) idx
      in st\<lparr>gRxBytes := m(idx \<mapsto> v + ucast sz)\<rparr>)"

subsection \<open>Decimal output of an unsigned integer\<close>

definition digit_char :: "nat \<Rightarrow> char" where
  "digit_char d = ''0123456789'' ! d"

fun dec :: "nat \<Rightarrow> string" where
  "dec n = (if n < 10 then [digit_char n] else dec (n div 10) @ [digit_char (n mod 10)])"

declare dec.simps [simp del]

subsection \<open>The simulator's scheduler\<close>

text \<open>
  Modelled from the spec: the simulator's scheduler (\<open>Simulator::Schedule\<close>,
  \<open>Simulator::Stop\<close>, \<open>Simulator::Run\<close>), which is ns-3's and not in the source file.
  Section 5 of the spec: one timeline; an event scheduled for an earlier time runs
  before one scheduled for a later time; events for the same time run in the order
  they were enqueued; nothing is cancelled, and the stop time ends the run. The stop is
  itself an event enqueued by \<open>Simulator::Stop\<close>, as in ns-3, so that the order of
  enqueueing decides between it and another event for the same time. The clock counts
  ticks; \<open>Seconds\<close>, which turns a double into ticks, is a parameter.
\<close>

text \<open>
  \<open>Time::GetSeconds\<close> at ns-3's default resolution, a nanosecond per tick (the source
  does not change the resolution).
\<close>

definition GetSeconds :: "nat \<Rightarrow> real" where
  "GetSeconds t = real t / 1000000000"

text \<open>
  What \<open>csv << Simulator::Now().GetSeconds()\<close> writes: the stream has the default
  precision, six significant digits. The clock's values are whole nanoseconds, so the
  digits are those of the tick count: \<open>round6\<close> rounds a count of more than six digits
  to its six leading ones. (The binary rounding of the double itself is not modelled.)
\<close>

fun ndigits :: "nat \<Rightarrow> nat" where
  "ndigits n = (if n < 10 then 1 else Suc (ndigits (n div 10)))"

declare ndigits.simps [simp del]

definition round6 :: "nat \<Rightarrow> nat" where
  "round6 t =
     (if ndigits t \<le> 6 then t
      else (let s = 10 ^ (ndigits t - 6) in ((t + s div 2) div s) * s))"

definition shown_seconds :: "real \<Rightarrow> real" where
  "shown_seconds x = real (round6 (nat \<lfloor>x * 1000000000\<rfloor>)) / 1000000000"

definition Schedule :: "nat \<Rightarrow> event \<Rightarrow> state \<Rightarrow> state" where
  "Schedule delay ev st = st\<lparr>pending := pending st @ [(now st + delay, ev)]\<rparr>"

definition Stop :: "nat \<Rightarrow> state \<Rightarrow> state" where
  "Stop delay st = Schedule delay StopEv st"

text \<open>The next event: the first in the list among those with the least time.\<close>

fun pop_next :: "(nat \<times> 'e) list \<Rightarrow> ((nat \<times> 'e) \<times> (nat \<times> 'e) list) option" where
  "pop_next [] = None"
| "pop_next (x # xs) =
     (case pop_next xs of
        None \<Rightarrow> Some (x, [])
      | Some (y, ys) \<Rightarrow> if fst y < fst x then Some (y, x # ys) else Some (x, xs))"

subsection \<open>\<open>DoSample\<close> (lines 49-73) and \<open>HookSenderTraces\<close> (lines 74-84)\<close>

definition routerPkts_of :: "u32 option list \<Rightarrow> u32" where
  "routerPkts_of qs = fold (\<lambda>qd acc. case qd of None \<Rightarrow> acc | Some k \<Rightarrow> acc + k) qs 0"

text \<open>The body of the loop over the flows, for flow \<open>i\<close>.\<close>

definition DoSample_flow :: "real \<Rightarrow> u32 \<Rightarrow> nat \<Rightarrow> state \<Rightarrow> state" where
  "DoSample_flow sampleDt routerPkts i st =
     (let (cur, rx) = map_index (gRxBytes st) (of_nat i);
          (prev, rxp) = map_index (gRxBytesPrev st) (of_nat i);
          rxp' = rxp(of_nat i \<mapsto> cur);
          delta = (if prev \<le> cur then cur - prev else 0);
          thrMbps = ddiv_double (dmul (real (unat delta)) 8) (dmul sampleDt 1000000);
          c = ctx st ! i;
          cwndPkts = ddiv (lastCwndBytes c) (max 1 (mssBytes c));
          inflPkts = ddiv (inflightBytes c) (max 1 (mssBytes c));
          r = \<lparr>time = GetSeconds (now st), cwnd_pkts = cwndPkts, throughput_mbps = thrMbps,
               buffer_pkts = routerPkts, inflight_pkts = inflPkts\<rparr>
      in st\<lparr>gRxBytes := rx, gRxBytesPrev := rxp',
            ctx := (ctx st)[i := c\<lparr>csv := ofstream_put (Row r) (csv c)\<rparr>]\<rparr>)"

definition DoSample :: "(real \<Rightarrow> nat) \<Rightarrow> real \<Rightarrow> state \<Rightarrow> state" where
  "DoSample Seconds sampleDt st =
     (let routerPkts = routerPkts_of (gQdiscs st);
          st' = fold (DoSample_flow sampleDt routerPkts) [0..<length (ctx st)] st
      in Schedule (Seconds sampleDt) DoSampleEv st')"

definition HookSenderTraces :: "nat \<Rightarrow> nat \<Rightarrow> state \<Rightarrow> state" where
  "HookSenderTraces senderId i st =
     (let p1 = ''/NodeList/'' @ dec senderId
                 @ ''/$ns3::TcpL4Protocol/SocketList/*/CongestionWindow'';
          p2 = ''/NodeList/'' @ dec senderId
                 @ ''/$ns3::TcpL4Protocol/SocketList/*/BytesInFlight''
      in st\<lparr>connected := connected st @ [(p1, i), (p2, i)]\<rparr>)"

subsection \<open>Running the simulation\<close>

text \<open>What the simulator supplies to \<open>main\<close>.\<close>

record engine =
  LookupByNameFailSafe :: "string \<Rightarrow> TypeId option"
  can_open :: "string \<Rightarrow> bool"
  Seconds :: "real \<Rightarrow> nat"

definition dispatch :: "engine \<Rightarrow> real \<Rightarrow> event \<Rightarrow> state \<Rightarrow> state" where
  "dispatch eng sampleDt ev st =
     (case ev of
        DoSampleEv \<Rightarrow> DoSample (Seconds eng) sampleDt st
      | StopEv \<Rightarrow> st\<lparr>stopped := True\<rparr>
      | HookSenderTracesEv i \<Rightarrow> HookSenderTraces i i st
      | CwndTraceEv i oldCwnd newCwnd \<Rightarrow> CwndTrace i oldCwnd newCwnd st
      | InflightTraceEv i oldVal newVal \<Rightarrow> InflightTrace i oldVal newVal st
      | RxTraceEv idx sz \<Rightarrow> RxTrace idx sz st
      | QueueEv j k \<Rightarrow> st\<lparr>gQdiscs := (gQdiscs st)[j := map_option (\<lambda>_. k) (gQdiscs st ! j)]\<rparr>)"

definition ProcessOneEvent :: "engine \<Rightarrow> real \<Rightarrow> state \<Rightarrow> state" where
  "ProcessOneEvent eng sampleDt st =
     (case pop_next (pending st) of
        None \<Rightarrow> st
      | Some ((t, ev), rest) \<Rightarrow>
          dispatch eng sampleDt ev
            (st\<lparr>pending := rest, now := t, executed := executed st @ [(t, ev)]\<rparr>))"

text \<open>
  \<open>Simulator::Run\<close>: process events until none is left or the stop flag is set. The
  loop need not end, so it runs on fuel: \<open>None\<close> when the fuel is used up first.
\<close>

fun Run :: "nat \<Rightarrow> engine \<Rightarrow> real \<Rightarrow> state \<Rightarrow> state option" where
  "Run 0 eng sampleDt st = (if pending st = [] \<or> stopped st then Some st else None)"
| "Run (Suc fuel) eng sampleDt st =
     (if pending st = [] \<or> stopped st then Some st
      else Run fuel eng sampleDt (ProcessOneEvent eng sampleDt st))"

subsection \<open>\<open>main\<close> (lines 107-231)\<close>

record args =
  flows :: string
  mss :: u32
  sampleDt :: real
  duration :: u32

definition header :: string where
  "header = ''time,cwnd_pkts,throughput_mbps,buffer_pkts,inflight_pkts''"

text \<open>\<open>std::max<uint32_t>(algos.size(), 1)\<close>: the size is converted to 32 bits.\<close>

definition flow_count :: "string list \<Rightarrow> u32" where
  "flow_count algos = max (of_nat (length algos)) 1"

text \<open>\<open>(i < algos.size()) ? algos[i] : algos.back()\<close>\<close>

definition pick_algo :: "string list \<Rightarrow> nat \<Rightarrow> error + string" where
  "pick_algo algos i =
     (if i < length algos then Inr (algos ! i)
      else if algos = [] then Inl (UndefinedBehaviour ''back() of an empty vector'')
      else Inr (last algos))"

text \<open>
  The body of the loop of lines 202-220 for flow \<open>i\<close>. The sender nodes are the first
  nodes created, so the node id of sender \<open>i\<close> is \<open>i\<close>.
\<close>

definition setup_flow :: "engine \<Rightarrow> string list \<Rightarrow> u32 \<Rightarrow> nat \<Rightarrow> state \<Rightarrow> error + state" where
  "setup_flow eng algos m i st =
     (case pick_algo algos i of
        Inl e \<Rightarrow> Inl e
      | Inr a \<Rightarrow>
          (let c = (ctx st ! i)\<lparr>algo := a, mssBytes := real (unat m)\<rparr> in
           case ResolveTcpTypeId (LookupByNameFailSafe eng) a of
             (ws, Inl e) \<Rightarrow> Inl e
           | (ws, Inr tid) \<Rightarrow>
               (let senderId = i;
                    base = ''/NodeList/'' @ dec senderId @ ''/$ns3::TcpL4Protocol/SocketType'';
                    fn = ''trace_flow'' @ dec i @ ''.csv'';
                    f = ofstream_open (can_open eng) fn (csv c)
                in if failed f then Inl (Fatal (''Failed to open CSV for flow '' @ dec i))
                   else Inr (Schedule (Seconds eng (11 / 100)) (HookSenderTracesEv i)
                          (st\<lparr>ctx := (ctx st)[i := c\<lparr>csv := ofstream_put (Text header) f\<rparr>],
                              warnings := warnings st @ ws,
                              socketType := socketType st @ [(base, tid)]\<rparr>)))))"

text \<open>A counted loop whose body can abort.\<close>

fun for_each :: "(nat \<Rightarrow> 's \<Rightarrow> error + 's) \<Rightarrow> nat list \<Rightarrow> 's \<Rightarrow> error + 's" where
  "for_each body [] s = Inr s"
| "for_each body (i # is) s =
     (case body i s of Inl e \<Rightarrow> Inl e | Inr s' \<Rightarrow> for_each body is s')"

text \<open>
  \<open>main\<close> up to \<open>Simulator::Run\<close>. One queue disc per flow is installed and recorded,
  empty at first. The callbacks the simulator will deliver during the run, with their
  times, are the parameter \<open>trace\<close>; they stand in the event list behind the events
  \<open>main\<close> schedules itself.
\<close>

definition main_setup :: "engine \<Rightarrow> args \<Rightarrow> (nat \<times> event) list \<Rightarrow> error + state" where
  "main_setup eng a trace =
     (let algos = Split (flows a) CHR '','';
          n = unat (flow_count algos);
          st0 = \<lparr>gRxBytes = Map.empty, gRxBytesPrev = Map.empty,
                 gQdiscs = replicate n (Some 0), ctx = replicate n FlowCtx_default,
                 warnings = [], socketType = [], connected = [],
                 now = 0, pending = [], stopped = False, executed = []\<rparr>
      in case for_each (setup_flow eng algos (mss a)) [0..<n] st0 of
           Inl e \<Rightarrow> Inl e
         | Inr st \<Rightarrow>
             (let st1 = Schedule (Seconds eng (sampleDt a)) DoSampleEv st;
                  st2 = Stop (Seconds eng (real (unat (duration a)))) st1
              in Inr (st2\<lparr>pending := pending st2 @ trace\<rparr>)))"

definition close_all :: "state \<Rightarrow> state" where
  "close_all st =
     st\<lparr>ctx := map (\<lambda>c. if is_open (csv c) then c\<lparr>csv := ofstream_close (csv c)\<rparr> else c) (ctx st)\<rparr>"

text \<open>The whole program: \<open>None\<close> when the run has not ended within the fuel.\<close>

definition main :: "engine \<Rightarrow> args \<Rightarrow> (nat \<times> event) list \<Rightarrow> nat \<Rightarrow> (error + state) option" where
  "main eng a trace fuel =
     (case main_setup eng a trace of
        Inl e \<Rightarrow> Some (Inl e)
      | Inr st \<Rightarrow>
          (case Run fuel eng (sampleDt a) st of
             None \<Rightarrow> None
           | Some st' \<Rightarrow> Some (Inr (close_all st'))))"

subsection \<open>Concrete inputs\<close>

text \<open>Registries, engines and arguments at which the theorems below are instantiated.\<close>

definition registry_reno_only :: "string \<Rightarrow> TypeId option" where
  "registry_reno_only n = (if n = ''ns3::TcpNewReno'' then Some 7 else None)"

definition registry_empty :: "string \<Rightarrow> TypeId option" where
  "registry_empty n = None"

definition registry_no_bbr :: "string \<Rightarrow> TypeId option" where
  "registry_no_bbr n =
     (if n = ''ns3::TcpNewReno'' then Some 7 else if n = ''ns3::TcpCubic'' then Some 8 else None)"

definition engine_plain :: engine where
  "engine_plain =
     \<lparr>LookupByNameFailSafe = registry_no_bbr, can_open = (\<lambda>fn. True),
      Seconds = (\<lambda>x. nat \<lfloor>x * 1000000000\<rfloor>)\<rparr>"

definition args_no_token :: args where
  "args_no_token = \<lparr>flows = '',,'', mss = 1500, sampleDt = 1 / 10, duration = 20\<rparr>"

definition args_mss0 :: args where
  "args_mss0 = \<lparr>flows = ''BBR'', mss = 0, sampleDt = 1 / 10, duration = 20\<rparr>"

definition state_mss0 :: state where
  "state_mss0 =
     \<lparr>gRxBytes = Map.empty, gRxBytesPrev = Map.empty,
      gQdiscs = [Some 0],
      ctx =
        [\<lparr>algo = ''BBR'', mssBytes = 0, lastCwndBytes = 1500, inflightBytes = 0,
          csv = \<lparr>path = ''trace_flow0.csv'', is_open = True, failed = False,
                  written = [Text header]\<rparr>\<rparr>],
      warnings = [''ns3::TcpBbr not available; falling back to ns3::TcpNewReno.''],
      socketType = [(''/NodeList/0/$ns3::TcpL4Protocol/SocketType'', 7)],
      connected = [], now = 0,
      pending = [(110000000, HookSenderTracesEv 0), (100000000, DoSampleEv),
                 (20000000000, StopEv)],
      stopped = False, executed = []\<rparr>"

definition args_two :: args where
  "args_two = \<lparr>flows = ''Reno,Cubic'', mss = 1000, sampleDt = 1 / 10, duration = 20\<rparr>"

definition state_after_setup :: state where
  "state_after_setup =
     \<lparr>gRxBytes = Map.empty, gRxBytesPrev = Map.empty,
      gQdiscs = [Some 0, Some 0],
      ctx =
        [\<lparr>algo = ''Reno'', mssBytes = 1000, lastCwndBytes = 1500, inflightBytes = 0,
          csv = \<lparr>path = ''trace_flow0.csv'', is_open = True, failed = False,
                  written = [Text header]\<rparr>\<rparr>,
         \<lparr>algo = ''Cubic'', mssBytes = 1000, lastCwndBytes = 1500, inflightBytes = 0,
          csv = \<lparr>path = ''trace_flow1.csv'', is_open = True, failed = False,
                  written = [Text header]\<rparr>\<rparr>],
      warnings = [],
      socketType = [(''/NodeList/0/$ns3::TcpL4Protocol/SocketType'', 7),
                    (''/NodeList/1/$ns3::TcpL4Protocol/SocketType'', 8)],
      connected = [], now = 0,
      pending = [(110000000, HookSenderTracesEv 0), (110000000, HookSenderTracesEv 1),
                 (100000000, DoSampleEv), (20000000000, StopEv)],
      stopped = False, executed = []\<rparr>"

text \<open>After setup, flow 1 has received 3000 bytes and the two queues hold 2 and 3 packets.\<close>

definition state_with_traffic :: state where
  "state_with_traffic =
     dispatch engine_plain (1 / 10) (QueueEv 1 3)
       (dispatch engine_plain (1 / 10) (QueueEv 0 2)
          (dispatch engine_plain (1 / 10) (RxTraceEv 1 3000) state_after_setup))"

definition args_zero_dt :: args where
  "args_zero_dt = \<lparr>flows = ''Reno'', mss = 1500, sampleDt = 0, duration = 20\<rparr>"

definition trace_cwnd1 :: "(nat \<times> event) list" where
  "trace_cwnd1 = [(0, CwndTraceEv 1 0 3000)]"

definition engine_no_files :: engine where
  "engine_no_files =
     \<lparr>LookupByNameFailSafe = registry_no_bbr, can_open = (\<lambda>fn. False),
      Seconds = (\<lambda>x. nat \<lfloor>x * 1000000000\<rfloor>)\<rparr>"

subsection \<open>Notions for the run of the sampler\<close>

text \<open>The times of the data rows of a file, in the order of the rows.\<close>

fun row_times :: "line list \<Rightarrow> real list" where
  "row_times [] = []"
| "row_times (Text s # ls) = row_times ls"
| "row_times (Row r # ls) = time r # row_times ls"

text \<open>
  The two events that decide when the sampler fires, and the state of a run in which
  the sampler has fired \<open>j\<close> times with period \<open>dt\<close> and the stop, due at \<open>stopT\<close>, has not
  been processed: both events are in the event list, the first firing ahead of the stop
  and every later one behind it, and every open file holds the rows of the firings so
  far. \<open>sampler_done\<close> is the state in which the stop has been processed after \<open>j\<close>
  firings.
\<close>

definition special :: "nat \<times> event \<Rightarrow> bool" where
  "special e \<longleftrightarrow> snd e = DoSampleEv \<or> snd e = StopEv"

definition sampler_inv :: "nat \<Rightarrow> nat \<Rightarrow> nat \<Rightarrow> state \<Rightarrow> bool" where
  "sampler_inv dt stopT j st \<longleftrightarrow>
     \<not> stopped st \<and>
     filter special (pending st) =
       (if j = 0 then [(dt, DoSampleEv), (stopT, StopEv)]
        else [(stopT, StopEv), (Suc j * dt, DoSampleEv)]) \<and>
     (\<forall>k. 1 \<le> k \<and> k \<le> j \<longrightarrow> k * dt < stopT \<or> (k = 1 \<and> dt = stopT)) \<and>
     (\<forall>i<length (ctx st).
        is_open (csv (ctx st ! i)) \<and> \<not> failed (csv (ctx st ! i)) \<and>
        row_times (written (csv (ctx st ! i))) = map (\<lambda>k. GetSeconds (k * dt)) [1..<Suc j])"

definition sampler_done :: "nat \<Rightarrow> nat \<Rightarrow> nat \<Rightarrow> state \<Rightarrow> bool" where
  "sampler_done dt stopT j st \<longleftrightarrow>
     stopped st \<and>
     (\<forall>k. 1 \<le> k \<and> k \<le> j \<longrightarrow> k * dt < stopT \<or> (k = 1 \<and> dt = stopT)) \<and>
     (stopT < Suc j * dt \<or> (stopT = Suc j * dt \<and> 1 \<le> j)) \<and>
     (\<forall>i<length (ctx st).
        row_times (written (csv (ctx st ! i))) = map (\<lambda>k. GetSeconds (k * dt)) [1..<Suc j])"

text \<open>
  The time values as they stand in a file: each row's time, in seconds, as the stream
  prints it at its default precision.
\<close>

definition written_times :: "line list \<Rightarrow> real list" where
  "written_times ls = map shown_seconds (row_times ls)"

definition args_half_second :: args where
  "args_half_second = \<lparr>flows = ''Reno'', mss = 1500, sampleDt = 1 / 2, duration = 2\<rparr>"

definition trace_one_packet :: "(nat \<times> event) list" where
  "trace_one_packet = [(700000000, RxTraceEv 0 1000)]"

definition args_period_is_duration :: args where
  "args_period_is_duration = \<lparr>flows = ''Reno'', mss = 1500, sampleDt = 2, duration = 2\<rparr>"

definition args_millisecond :: args where
  "args_millisecond = \<lparr>flows = ''Reno'', mss = 1500, sampleDt = 1 / 1000, duration = 1001\<rparr>"

section \<open>Properties\<close>

subsection \<open>The resolver\<close>

lemma ns3Name_of_unrecognized:
  "a \<noteq> ''Reno'' \<Longrightarrow> a \<noteq> ''Cubic'' \<Longrightarrow> a \<noteq> ''BBR'' \<Longrightarrow> ns3Name_of a = ''ns3::TcpNewReno''"
  by (simp add: ns3Name_of_def)

lemma ResolveTcpTypeId_default_name:
  "ns3Name_of a = ''ns3::TcpNewReno'' \<Longrightarrow>
   ResolveTcpTypeId lk a =
     (case lk ''ns3::TcpNewReno'' of
        Some tid \<Rightarrow> ([], Inr tid)
      | None \<Rightarrow> ([], Inl (Fatal (fatal_message ''ns3::TcpNewReno''))))"
  by (simp add: ResolveTcpTypeId_def split: option.splits)

lemma ResolveTcpTypeId_other_name:
  "ns3Name_of a \<noteq> ''ns3::TcpNewReno'' \<Longrightarrow>
   ResolveTcpTypeId lk a =
     (case lk (ns3Name_of a) of
        Some tid \<Rightarrow> ([], Inr tid)
      | None \<Rightarrow>
         (case lk ''ns3::TcpNewReno'' of
            Some tid \<Rightarrow> ([warn_message (ns3Name_of a)], Inr tid)
          | None \<Rightarrow> ([warn_message (ns3Name_of a)], Inl (Fatal (fatal_message (ns3Name_of a))))))"
  by (simp add: ResolveTcpTypeId_def Let_def split: option.splits)

text \<open>
  A name outside \<open>Reno\<close>, \<open>Cubic\<close>, \<open>BBR\<close> is mapped to \<open>ns3::TcpNewReno\<close> by the last
  branch of the name mapping (line 91), before any lookup; the warning of lines 96-98
  is reached only when the mapped name is not \<open>ns3::TcpNewReno\<close>. So for such a name
  the list of warnings is empty, whatever the registry holds.
\<close>

lemma ResolveTcpTypeId_unrecognized:
  assumes "a \<noteq> ''Reno''" and "a \<noteq> ''Cubic''" and "a \<noteq> ''BBR''"
  shows "fst (ResolveTcpTypeId lk a) = []"
  using assms
  by (simp add: ResolveTcpTypeId_default_name ns3Name_of_unrecognized split: option.splits)

text \<open>
  Claim C2: an unrecognized algorithm name resolves to the default handle and a
  warning-level diagnostic is emitted. The code does the first and not the second: with
  only \<open>ns3::TcpNewReno\<close> registered, resolving \<open>Foo\<close> returns the handle with an empty
  list of warnings, whereas the other fallback of the same function, taken for the
  recognized name \<open>BBR\<close> whose type is not registered, returns the same handle with the
  warning of lines 96-98.
\<close>

theorem resolve_unrecognized_silent_fallback:
  "ResolveTcpTypeId registry_reno_only ''Foo'' = ([], Inr 7) \<and>
   ResolveTcpTypeId registry_reno_only ''BBR'' =
     ([''ns3::TcpBbr not available; falling back to ns3::TcpNewReno.''], Inr 7)"
  by (simp add: ResolveTcpTypeId_def ns3Name_of_def registry_reno_only_def warn_message_def)

text \<open>
  Claim C4: a name outside \<open>Reno\<close>, \<open>Cubic\<close>, \<open>BBR\<close> resolves exactly as \<open>Reno\<close> does
  (same warnings, same handle or same abort); and the result for a name is determined by
  the name and by what the registry holds for the three ns-3 type names, so resolving the
  same name again against an unchanged registry gives the same handle.
\<close>

theorem resolve_fallback_law:
  "(a \<noteq> ''Reno'' \<and> a \<noteq> ''Cubic'' \<and> a \<noteq> ''BBR'' \<longrightarrow>
      ResolveTcpTypeId lk a = ResolveTcpTypeId lk ''Reno'') \<and>
   (lk ''ns3::TcpNewReno'' = lk' ''ns3::TcpNewReno'' \<and> lk ''ns3::TcpCubic'' = lk' ''ns3::TcpCubic''
      \<and> lk ''ns3::TcpBbr'' = lk' ''ns3::TcpBbr'' \<longrightarrow>
      ResolveTcpTypeId lk b = ResolveTcpTypeId lk' b)"
proof (intro conjI impI)
  assume "a \<noteq> ''Reno'' \<and> a \<noteq> ''Cubic'' \<and> a \<noteq> ''BBR''"
  then have "ns3Name_of a = ns3Name_of ''Reno''"
    by (simp add: ns3Name_of_def)
  then show "ResolveTcpTypeId lk a = ResolveTcpTypeId lk ''Reno''"
    by (simp add: ResolveTcpTypeId_def)
next
  assume same: "lk ''ns3::TcpNewReno'' = lk' ''ns3::TcpNewReno'' \<and> lk ''ns3::TcpCubic'' = lk' ''ns3::TcpCubic''
      \<and> lk ''ns3::TcpBbr'' = lk' ''ns3::TcpBbr''"
  have "ns3Name_of b = ''ns3::TcpNewReno'' \<or> ns3Name_of b = ''ns3::TcpCubic''
      \<or> ns3Name_of b = ''ns3::TcpBbr''"
    by (simp add: ns3Name_of_def)
  then have "lk (ns3Name_of b) = lk' (ns3Name_of b)"
    using same by auto
  then show "ResolveTcpTypeId lk b = ResolveTcpTypeId lk' b"
    using same by (simp add: ResolveTcpTypeId_def Let_def split: option.splits)
qed

theorem resolve_fallback_law_witness:
  "ResolveTcpTypeId registry_no_bbr ''Vegas'' = ResolveTcpTypeId registry_no_bbr ''Reno'' \<and>
   ResolveTcpTypeId registry_no_bbr ''Vegas'' = ([], Inr 7) \<and>
   ResolveTcpTypeId registry_no_bbr ''Cubic'' =
     ResolveTcpTypeId (registry_no_bbr(''other'' := Some 3)) ''Cubic''"
  using resolve_fallback_law
    [of "''Vegas''" registry_no_bbr "registry_no_bbr(''other'' := Some 3)" "''Cubic''"]
  by (simp add: registry_no_bbr_def ResolveTcpTypeId_def ns3Name_of_def)

text \<open>
  Claim C10: when \<open>Cubic\<close> or \<open>BBR\<close> maps to a type the registry does not have, the
  call logs one warning and looks \<open>ns3::TcpNewReno\<close> up instead; it returns that handle
  when the second lookup succeeds and aborts only when it fails too. For every other name
  (\<open>Reno\<close> or an unrecognized one) there is a single lookup of \<open>ns3::TcpNewReno\<close>: no
  warning, and a failed lookup aborts at once.
\<close>

theorem resolve_recognized_retry:
  "((a = ''Cubic'' \<or> a = ''BBR'') \<and> lk (ns3Name_of a) = None \<longrightarrow>
      ResolveTcpTypeId lk a =
        (case lk ''ns3::TcpNewReno'' of
           Some tid \<Rightarrow> ([warn_message (ns3Name_of a)], Inr tid)
         | None \<Rightarrow> ([warn_message (ns3Name_of a)], Inl (Fatal (fatal_message (ns3Name_of a)))))) \<and>
   (a \<noteq> ''Cubic'' \<and> a \<noteq> ''BBR'' \<longrightarrow>
      ResolveTcpTypeId lk a =
        (case lk ''ns3::TcpNewReno'' of
           Some tid \<Rightarrow> ([], Inr tid)
         | None \<Rightarrow> ([], Inl (Fatal (fatal_message ''ns3::TcpNewReno'')))))"
proof (intro conjI impI)
  assume h: "(a = ''Cubic'' \<or> a = ''BBR'') \<and> lk (ns3Name_of a) = None"
  then have "ns3Name_of a \<noteq> ''ns3::TcpNewReno''"
    by (auto simp: ns3Name_of_def)
  then show "ResolveTcpTypeId lk a =
        (case lk ''ns3::TcpNewReno'' of
           Some tid \<Rightarrow> ([warn_message (ns3Name_of a)], Inr tid)
         | None \<Rightarrow> ([warn_message (ns3Name_of a)], Inl (Fatal (fatal_message (ns3Name_of a)))))"
    using h by (simp add: ResolveTcpTypeId_other_name)
next
  assume "a \<noteq> ''Cubic'' \<and> a \<noteq> ''BBR''"
  then have "ns3Name_of a = ''ns3::TcpNewReno''"
    by (simp add: ns3Name_of_def)
  then show "ResolveTcpTypeId lk a =
        (case lk ''ns3::TcpNewReno'' of
           Some tid \<Rightarrow> ([], Inr tid)
         | None \<Rightarrow> ([], Inl (Fatal (fatal_message ''ns3::TcpNewReno''))))"
    by (rule ResolveTcpTypeId_default_name)
qed

theorem resolve_recognized_retry_witness:
  "ResolveTcpTypeId registry_no_bbr ''BBR'' =
     ([''ns3::TcpBbr not available; falling back to ns3::TcpNewReno.''], Inr 7) \<and>
   ResolveTcpTypeId registry_empty ''BBR'' =
     ([''ns3::TcpBbr not available; falling back to ns3::TcpNewReno.''],
      Inl (Fatal ''Could not resolve TCP TypeId for ns3::TcpBbr or fallback TcpNewReno'')) \<and>
   ResolveTcpTypeId registry_empty ''Reno'' =
     ([], Inl (Fatal ''Could not resolve TCP TypeId for ns3::TcpNewReno or fallback TcpNewReno''))"
  using resolve_recognized_retry [of "''BBR''" registry_no_bbr]
    resolve_recognized_retry [of "''BBR''" registry_empty]
    resolve_recognized_retry [of "''Reno''" registry_empty]
  by (simp add: registry_no_bbr_def registry_empty_def ns3Name_of_def warn_message_def
      fatal_message_def)

subsection \<open>Splitting the flows parameter\<close>

lemma split_fields_unfold:
  "split_fields d ss =
     takeWhile (\<lambda>c. c \<noteq> d) ss #
       (case dropWhile (\<lambda>c. c \<noteq> d) ss of [] \<Rightarrow> [] | c # rest \<Rightarrow> split_fields d rest)"
proof (induction ss)
  case Nil
  show ?case by simp
next
  case (Cons c cs)
  show ?case
  proof (cases "c = d")
    case True
    then show ?thesis by simp
  next
    case False
    then show ?thesis
      by (subst split_fields.simps) (simp add: Cons.IH)
  qed
qed

lemma getline_loop_split_fields:
  "getline_loop ss d out = out @ filter (\<lambda>x. x \<noteq> []) (split_fields d ss)"
proof (induction ss d out rule: getline_loop.induct)
  case (1 ss d out)
  show ?case
  proof (cases "ss = []")
    case True
    then show ?thesis by (subst getline_loop.simps) simp
  next
    case False
    let ?x = "takeWhile (\<lambda>c. c \<noteq> d) ss"
    let ?ss' = "drop 1 (dropWhile (\<lambda>c. c \<noteq> d) ss)"
    have step: "getline_loop ss d out = getline_loop ?ss' d (if ?x \<noteq> [] then out @ [?x] else out)"
      using False by (subst getline_loop.simps) (simp add: Let_def)
    have ih: "getline_loop ?ss' d (if ?x \<noteq> [] then out @ [?x] else out) =
        (if ?x \<noteq> [] then out @ [?x] else out) @ filter (\<lambda>x. x \<noteq> []) (split_fields d ?ss')"
      using "1.IH" [OF False refl refl] .
    define dw where "dw = dropWhile (\<lambda>c. c \<noteq> d) ss"
    have unfold: "split_fields d ss =
        ?x # (case dw of [] \<Rightarrow> [] | c # rest \<Rightarrow> split_fields d rest)"
      unfolding dw_def by (rule split_fields_unfold)
    have ss': "?ss' = drop 1 dw"
      by (simp add: dw_def)
    have rest: "filter (\<lambda>x. x \<noteq> []) (split_fields d ss) =
        (if ?x \<noteq> [] then [?x] else []) @ filter (\<lambda>x. x \<noteq> []) (split_fields d ?ss')"
      unfolding unfold ss' by (cases dw) simp_all
    show ?thesis
      unfolding step ih rest by simp
  qed
qed

lemma Split_split_fields: "Split s d = filter (\<lambda>x. x \<noteq> []) (split_fields d s)"
  by (simp add: Split_def getline_loop_split_fields)

lemma split_fields_all_empty: "(\<forall>f\<in>set (split_fields d s). f = []) \<longleftrightarrow> (\<forall>c\<in>set s. c = d)"
proof (induction s)
  case Nil
  show ?case by simp
next
  case (Cons c cs)
  then show ?case
    by (auto split: list.splits)
qed

lemma Split_empty_iff: "Split s d = [] \<longleftrightarrow> (\<forall>c\<in>set s. c = d)"
  unfolding Split_split_fields filter_empty_conv using split_fields_all_empty [of d s] by auto

lemma unat_flow_count: "unat (flow_count algos) = max (length algos mod 2 ^ 32) 1"
proof -
  have "unat (of_nat (length algos) :: u32) = length algos mod 2 ^ 32"
    by (simp add: unat_of_nat)
  then show ?thesis
    by (simp add: flow_count_def max_def word_le_nat_alt)
qed

lemma flow_count_in_bounds:
  assumes "algos \<noteq> []" and "i < unat (flow_count algos)"
  shows "i < length algos"
proof -
  have "length algos mod 2 ^ 32 \<le> length algos"
    by simp
  moreover have "1 \<le> length algos"
    using assms(1) by (cases algos) auto
  ultimately have "unat (flow_count algos) \<le> length algos"
    unfolding unat_flow_count by simp
  then show ?thesis
    using assms(2) by simp
qed

lemma main_setup_no_token:
  assumes "Split (flows a) CHR '','' = []"
  shows "main_setup eng a trace = Inl (UndefinedBehaviour ''back() of an empty vector'')"
proof -
  have n: "unat (flow_count []) = 1"
    by (simp add: unat_flow_count)
  show ?thesis
    using assms by (simp add: main_setup_def n setup_flow_def pick_algo_def)
qed

lemma Split_ex1: "Split ''Reno,,Cubic,'' CHR '','' = [''Reno'', ''Cubic'']"
  by (simp add: Split_split_fields)

lemma Split_ex2: "Split '',,'' CHR '','' = []"
  by (simp add: Split_split_fields)

text \<open>
  Claim C9: \<open>Split\<close> returns the non-empty fields of the parameter, in order, and
  returns none exactly when the parameter is empty or holds only delimiters. The flow
  count is the larger of the number of tokens and 1 (the number of tokens fits 32 bits).
  With at least one token, every flow index below the count is within the token list
  and the flow gets the token at its index. With no token the count is still 1, and the
  assignment for flow 0 reads \<open>back()\<close> of the empty vector: no defined result, which is
  where \<open>main\<close> ends.
\<close>

theorem split_flow_count_bounds:
  "Split s d = filter (\<lambda>x. x \<noteq> []) (split_fields d s) \<and>
   (Split s d = [] \<longleftrightarrow> (\<forall>c\<in>set s. c = d)) \<and>
   (length (Split s d) < 2 ^ 32 \<longrightarrow>
      unat (flow_count (Split s d)) = max (length (Split s d)) 1) \<and>
   (Split s d \<noteq> [] \<longrightarrow>
      (\<forall>i < unat (flow_count (Split s d)).
         i < length (Split s d) \<and> pick_algo (Split s d) i = Inr (Split s d ! i))) \<and>
   (Split (flows a) CHR '','' = [] \<longrightarrow>
      unat (flow_count (Split (flows a) CHR '','')) = 1 \<and>
      pick_algo (Split (flows a) CHR '','') 0 = Inl (UndefinedBehaviour ''back() of an empty vector'') \<and>
      main_setup eng a trace = Inl (UndefinedBehaviour ''back() of an empty vector''))"
proof (intro conjI impI allI)
  show "Split s d = filter (\<lambda>x. x \<noteq> []) (split_fields d s)"
    by (rule Split_split_fields)
  show "(Split s d = []) = (\<forall>c\<in>set s. c = d)"
    by (rule Split_empty_iff)
next
  assume "length (Split s d) < 2 ^ 32"
  then show "unat (flow_count (Split s d)) = max (length (Split s d)) 1"
    by (simp add: unat_flow_count)
next
  fix i
  assume ne: "Split s d \<noteq> []" and i: "i < unat (flow_count (Split s d))"
  show "i < length (Split s d)"
    using ne i by (rule flow_count_in_bounds)
  then show "pick_algo (Split s d) i = Inr (Split s d ! i)"
    by (simp add: pick_algo_def)
next
  assume e: "Split (flows a) CHR '','' = []"
  show "unat (flow_count (Split (flows a) CHR '','')) = 1"
    by (simp add: e unat_flow_count)
  show "pick_algo (Split (flows a) CHR '','') 0 = Inl (UndefinedBehaviour ''back() of an empty vector'')"
    by (simp add: e pick_algo_def)
  show "main_setup eng a trace = Inl (UndefinedBehaviour ''back() of an empty vector'')"
    using e by (rule main_setup_no_token)
qed

theorem split_flow_count_bounds_witness:
  "Split ''Reno,,Cubic,'' CHR '','' = [''Reno'', ''Cubic''] \<and>
   unat (flow_count (Split ''Reno,,Cubic,'' CHR '','')) = 2 \<and>
   pick_algo (Split ''Reno,,Cubic,'' CHR '','') 1 = Inr ''Cubic'' \<and>
   Split (flows args_no_token) CHR '','' = [] \<and>
   unat (flow_count (Split (flows args_no_token) CHR '','')) = 1 \<and>
   main_setup engine_plain args_no_token [] = Inl (UndefinedBehaviour ''back() of an empty vector'')"
proof -
  note t = split_flow_count_bounds [of "''Reno,,Cubic,''" "CHR '',''" args_no_token engine_plain "[]"]
  have e1: "Split ''Reno,,Cubic,'' CHR '','' = [''Reno'', ''Cubic'']"
    using t [THEN conjunct1] by simp
  have e2: "Split (flows args_no_token) CHR '','' = []"
    by (simp add: args_no_token_def Split_ex2)
  have n: "unat (flow_count (Split ''Reno,,Cubic,'' CHR '','')) = 2"
    using t [THEN conjunct2, THEN conjunct2, THEN conjunct1] by (simp add: e1)
  have "\<forall>i<unat (flow_count (Split ''Reno,,Cubic,'' CHR '','')).
          i < length (Split ''Reno,,Cubic,'' CHR '','') \<and>
          pick_algo (Split ''Reno,,Cubic,'' CHR '','') i = Inr (Split ''Reno,,Cubic,'' CHR '','' ! i)"
    using t [THEN conjunct2, THEN conjunct2, THEN conjunct2, THEN conjunct1] by (simp add: e1)
  then have p: "pick_algo (Split ''Reno,,Cubic,'' CHR '','') 1 = Inr ''Cubic''"
    unfolding n by (simp add: e1)
  have m: "unat (flow_count (Split (flows args_no_token) CHR '','')) = 1 \<and>
      pick_algo (Split (flows args_no_token) CHR '','') 0 = Inl (UndefinedBehaviour ''back() of an empty vector'') \<and>
      main_setup engine_plain args_no_token [] = Inl (UndefinedBehaviour ''back() of an empty vector'')"
    using t [THEN conjunct2, THEN conjunct2, THEN conjunct2, THEN conjunct2] e2 by blast
  show ?thesis
    using e1 e2 n p m by blast
qed

subsection \<open>The sampler\<close>

lemma of_nat_u32_inj:
  assumes "i < 2 ^ 32" and "j < 2 ^ 32" and "(of_nat i :: u32) = of_nat j"
  shows "i = j"
proof -
  have "unat (of_nat i :: u32) = unat (of_nat j :: u32)"
    using assms(3) by simp
  then have "i mod 2 ^ 32 = j mod 2 ^ 32"
    by (simp add: unat_of_nat)
  then show ?thesis
    using assms(1,2) by simp
qed

lemma map_index_fst: "fst (map_index m k) = (case m k of None \<Rightarrow> 0 | Some v \<Rightarrow> v)"
  by (simp add: map_index_def split: option.splits)

lemma map_index_snd_other: "k' \<noteq> k \<Longrightarrow> snd (map_index m k) k' = m k'"
  by (simp add: map_index_def split: option.splits)

lemma DoSample_flow_length [simp]:
  "length (ctx (DoSample_flow dt rp j st)) = length (ctx st)"
  by (simp add: DoSample_flow_def Let_def split_beta)

lemma DoSample_flow_now [simp]: "now (DoSample_flow dt rp j st) = now st"
  by (simp add: DoSample_flow_def Let_def split_beta)

lemma DoSample_flow_pending [simp]: "pending (DoSample_flow dt rp j st) = pending st"
  by (simp add: DoSample_flow_def Let_def split_beta)

lemma DoSample_flow_stopped [simp]: "stopped (DoSample_flow dt rp j st) = stopped st"
  by (simp add: DoSample_flow_def Let_def split_beta)

lemma DoSample_flow_ctx_other:
  "j \<noteq> i \<Longrightarrow> ctx (DoSample_flow dt rp j st) ! i = ctx st ! i"
  by (simp add: DoSample_flow_def Let_def split_beta)

lemma DoSample_flow_rx_other:
  "(of_nat j :: u32) \<noteq> k \<Longrightarrow> gRxBytes (DoSample_flow dt rp j st) k = gRxBytes st k"
  by (simp add: DoSample_flow_def Let_def split_beta map_index_snd_other)

lemma DoSample_flow_prev_other:
  "(of_nat j :: u32) \<noteq> k \<Longrightarrow> gRxBytesPrev (DoSample_flow dt rp j st) k = gRxBytesPrev st k"
  by (simp add: DoSample_flow_def Let_def split_beta map_index_snd_other)

lemma DoSample_flow_ctx_same:
  "i < length (ctx st) \<Longrightarrow>
   ctx (DoSample_flow dt rp i st) ! i =
     (ctx st ! i)\<lparr>csv := ofstream_put
        (Row \<lparr>time = GetSeconds (now st),
              cwnd_pkts = ddiv (lastCwndBytes (ctx st ! i)) (max 1 (mssBytes (ctx st ! i))),
              throughput_mbps =
                ddiv_double (dmul (real (unat
                   (let cur = (case gRxBytes st (of_nat i) of None \<Rightarrow> 0 | Some v \<Rightarrow> v);
                        prev = (case gRxBytesPrev st (of_nat i) of None \<Rightarrow> 0 | Some v \<Rightarrow> v)
                    in if prev \<le> cur then cur - prev else 0))) 8) (dmul dt 1000000),
              buffer_pkts = rp,
              inflight_pkts = ddiv (inflightBytes (ctx st ! i)) (max 1 (mssBytes (ctx st ! i)))\<rparr>)
        (csv (ctx st ! i))\<rparr>"
  by (simp add: DoSample_flow_def Let_def split_beta map_index_fst)

lemma DoSample_flow_prev_same:
  "gRxBytesPrev (DoSample_flow dt rp i st) (of_nat i) =
     Some (case gRxBytes st (of_nat i) of None \<Rightarrow> 0 | Some v \<Rightarrow> v)"
  by (simp add: DoSample_flow_def Let_def split_beta map_index_fst)

lemma fold_DoSample_flow_frame:
  "length (ctx (fold (DoSample_flow dt rp) js st)) = length (ctx st) \<and>
   now (fold (DoSample_flow dt rp) js st) = now st \<and>
   pending (fold (DoSample_flow dt rp) js st) = pending st \<and>
   stopped (fold (DoSample_flow dt rp) js st) = stopped st"
  by (induction js arbitrary: st) simp_all

lemma fold_DoSample_flow_ctx_other:
  "i \<notin> set js \<Longrightarrow> ctx (fold (DoSample_flow dt rp) js st) ! i = ctx st ! i"
  by (induction js arbitrary: st) (simp_all add: DoSample_flow_ctx_other)

lemma fold_DoSample_flow_rx_other:
  "\<forall>j\<in>set js. (of_nat j :: u32) \<noteq> k \<Longrightarrow>
   gRxBytes (fold (DoSample_flow dt rp) js st) k = gRxBytes st k"
  by (induction js arbitrary: st) (simp_all add: DoSample_flow_rx_other)

lemma fold_DoSample_flow_prev_other:
  "\<forall>j\<in>set js. (of_nat j :: u32) \<noteq> k \<Longrightarrow>
   gRxBytesPrev (fold (DoSample_flow dt rp) js st) k = gRxBytesPrev st k"
  by (induction js arbitrary: st) (simp_all add: DoSample_flow_prev_other)

lemma upt_split_at:
  assumes "i < n"
  shows "[0..<n] = [0..<i] @ i # [Suc i..<n]"
proof -
  have "[0..<i + (n - i)] = [0..<i] @ [i..<i + (n - i)]"
    by (rule upt_add_eq_append) simp
  then have "[0..<n] = [0..<i] @ [i..<n]"
    using assms by simp
  also have "[i..<n] = i # [Suc i..<n]"
    using assms by (simp add: upt_conv_Cons)
  finally show ?thesis .
qed

lemma Schedule_frame [simp]:
  "ctx (Schedule delay ev st) = ctx st"
  "gRxBytes (Schedule delay ev st) = gRxBytes st"
  "gRxBytesPrev (Schedule delay ev st) = gRxBytesPrev st"
  "gQdiscs (Schedule delay ev st) = gQdiscs st"
  "now (Schedule delay ev st) = now st"
  "stopped (Schedule delay ev st) = stopped st"
  "pending (Schedule delay ev st) = pending st @ [(now st + delay, ev)]"
  by (simp_all add: Schedule_def)

text \<open>
  What one firing of \<open>DoSample\<close> does to flow \<open>i\<close>: the body for \<open>i\<close> runs in the state
  the bodies for the flows before it have left, and the bodies after it leave the flow
  alone.
\<close>

lemma DoSample_ctx_nth_fold:
  assumes "i < length (ctx st)"
  shows "ctx (DoSample S dt st) ! i =
      ctx (DoSample_flow dt (routerPkts_of (gQdiscs st)) i
             (fold (DoSample_flow dt (routerPkts_of (gQdiscs st))) [0..<i] st)) ! i"
proof -
  let ?f = "DoSample_flow dt (routerPkts_of (gQdiscs st))"
  have "fold ?f [0..<length (ctx st)] st = fold ?f [Suc i..<length (ctx st)] (?f i (fold ?f [0..<i] st))"
    by (simp add: upt_split_at [OF assms])
  moreover have "ctx (fold ?f [Suc i..<length (ctx st)] (?f i (fold ?f [0..<i] st))) ! i =
      ctx (?f i (fold ?f [0..<i] st)) ! i"
    by (rule fold_DoSample_flow_ctx_other) simp
  ultimately have "ctx (fold ?f [0..<length (ctx st)] st) ! i = ctx (?f i (fold ?f [0..<i] st)) ! i"
    by simp
  then show ?thesis
    by (simp add: DoSample_def Let_def)
qed

lemma DoSample_ctx_nth:
  assumes "i < length (ctx st)"
  shows "\<exists>thr. ctx (DoSample S dt st) ! i =
     (ctx st ! i)\<lparr>csv := ofstream_put
        (Row \<lparr>time = GetSeconds (now st),
              cwnd_pkts = ddiv (lastCwndBytes (ctx st ! i)) (max 1 (mssBytes (ctx st ! i))),
              throughput_mbps = thr,
              buffer_pkts = routerPkts_of (gQdiscs st),
              inflight_pkts = ddiv (inflightBytes (ctx st ! i)) (max 1 (mssBytes (ctx st ! i)))\<rparr>)
        (csv (ctx st ! i))\<rparr>"
proof -
  let ?f = "DoSample_flow dt (routerPkts_of (gQdiscs st))"
  let ?st1 = "fold ?f [0..<i] st"
  have len: "i < length (ctx ?st1)"
    using assms by (simp add: fold_DoSample_flow_frame)
  have same: "ctx ?st1 ! i = ctx st ! i"
    by (rule fold_DoSample_flow_ctx_other) simp
  have nw: "now ?st1 = now st"
    by (simp add: fold_DoSample_flow_frame)
  show ?thesis
    unfolding DoSample_ctx_nth_fold [OF assms] DoSample_flow_ctx_same [OF len] same nw
    by blast
qed

lemma DoSample_ctx_nth_throughput:
  assumes "i < length (ctx st)" and "length (ctx st) \<le> 2 ^ 32"
  shows "ctx (DoSample S dt st) ! i =
     (ctx st ! i)\<lparr>csv := ofstream_put
        (Row \<lparr>time = GetSeconds (now st),
              cwnd_pkts = ddiv (lastCwndBytes (ctx st ! i)) (max 1 (mssBytes (ctx st ! i))),
              throughput_mbps =
                ddiv_double (dmul (real (unat
                   (let cur = (case gRxBytes st (of_nat i) of None \<Rightarrow> 0 | Some v \<Rightarrow> v);
                        prev = (case gRxBytesPrev st (of_nat i) of None \<Rightarrow> 0 | Some v \<Rightarrow> v)
                    in if prev \<le> cur then cur - prev else 0))) 8) (dmul dt 1000000),
              buffer_pkts = routerPkts_of (gQdiscs st),
              inflight_pkts = ddiv (inflightBytes (ctx st ! i)) (max 1 (mssBytes (ctx st ! i)))\<rparr>)
        (csv (ctx st ! i))\<rparr>"
proof -
  let ?f = "DoSample_flow dt (routerPkts_of (gQdiscs st))"
  let ?st1 = "fold ?f [0..<i] st"
  have len: "i < length (ctx ?st1)"
    using assms by (simp add: fold_DoSample_flow_frame)
  have same: "ctx ?st1 ! i = ctx st ! i"
    by (rule fold_DoSample_flow_ctx_other) simp
  have nw: "now ?st1 = now st"
    by (simp add: fold_DoSample_flow_frame)
  have keys: "\<forall>j\<in>set [0..<i]. (of_nat j :: u32) \<noteq> of_nat i"
  proof
    fix j
    assume "j \<in> set [0..<i]"
    then have "j < i"
      by simp
    then have "j < 2 ^ 32" and "i < 2 ^ 32" and "j \<noteq> i"
      using assms by simp_all
    then show "(of_nat j :: u32) \<noteq> of_nat i"
      using of_nat_u32_inj by blast
  qed
  have rx: "gRxBytes ?st1 (of_nat i) = gRxBytes st (of_nat i)"
    using keys by (rule fold_DoSample_flow_rx_other)
  have prev: "gRxBytesPrev ?st1 (of_nat i) = gRxBytesPrev st (of_nat i)"
    using keys by (rule fold_DoSample_flow_prev_other)
  show ?thesis
    unfolding DoSample_ctx_nth_fold [OF assms(1)] DoSample_flow_ctx_same [OF len] same nw rx prev
    by (rule refl)
qed

lemma DoSample_prev_nth:
  assumes "i < length (ctx st)" and "length (ctx st) \<le> 2 ^ 32"
  shows "gRxBytesPrev (DoSample S dt st) (of_nat i) =
     Some (case gRxBytes st (of_nat i) of None \<Rightarrow> 0 | Some v \<Rightarrow> v)"
proof -
  let ?f = "DoSample_flow dt (routerPkts_of (gQdiscs st))"
  let ?st1 = "fold ?f [0..<i] st"
  have distinct_keys: "(of_nat j :: u32) \<noteq> of_nat i" if "j < length (ctx st)" and "j \<noteq> i" for j
  proof -
    have "j < 2 ^ 32" and "i < 2 ^ 32"
      using that assms by simp_all
    then show ?thesis
      using that(2) of_nat_u32_inj by blast
  qed
  have before: "\<forall>j\<in>set [0..<i]. (of_nat j :: u32) \<noteq> of_nat i"
    using distinct_keys assms(1) by auto
  have after: "\<forall>j\<in>set [Suc i..<length (ctx st)]. (of_nat j :: u32) \<noteq> of_nat i"
    using distinct_keys by auto
  have rx: "gRxBytes ?st1 (of_nat i) = gRxBytes st (of_nat i)"
    using before by (rule fold_DoSample_flow_rx_other)
  have "fold ?f [0..<length (ctx st)] st = fold ?f [Suc i..<length (ctx st)] (?f i ?st1)"
    by (simp add: upt_split_at [OF assms(1)])
  moreover have "gRxBytesPrev (fold ?f [Suc i..<length (ctx st)] (?f i ?st1)) (of_nat i) =
      gRxBytesPrev (?f i ?st1) (of_nat i)"
    using after by (rule fold_DoSample_flow_prev_other)
  ultimately have "gRxBytesPrev (fold ?f [0..<length (ctx st)] st) (of_nat i) =
      gRxBytesPrev (?f i ?st1) (of_nat i)"
    by simp
  then show ?thesis
    by (simp add: DoSample_def Let_def DoSample_flow_prev_same rx)
qed


lemma main_setup_args_two: "main_setup engine_plain args_two [] = Inr state_after_setup"
  by (simp add: main_setup_def args_two_def engine_plain_def Split_split_fields unat_flow_count
      setup_flow_def pick_algo_def ResolveTcpTypeId_def ns3Name_of_def registry_no_bbr_def
      ofstream_open_def ofstream_put_def FlowCtx_default_def ofstream_default_def Schedule_def
      Stop_def digit_char_def dec.simps Let_def state_after_setup_def upt_conv_Cons)

lemma state_with_traffic_eq:
  "state_with_traffic =
     state_after_setup\<lparr>gRxBytes := [1 \<mapsto> 3000], gQdiscs := [Some 2, Some 3]\<rparr>"
  by (simp add: state_with_traffic_def dispatch_def RxTrace_def map_index_def
      state_after_setup_def)

lemma ofstream_put_written:
  "is_open f \<Longrightarrow> \<not> failed f \<Longrightarrow> written (ofstream_put l f) = written f @ [l]"
  by (simp add: ofstream_put_def)

lemma routerPkts_of_fold:
  "fold (\<lambda>qd acc. case qd of None \<Rightarrow> acc | Some k \<Rightarrow> acc + k) qs (a :: u32) =
     a + sum_list (map (\<lambda>qd. case qd of None \<Rightarrow> 0 | Some k \<Rightarrow> k) qs)"
  by (induction qs arbitrary: a) (simp_all split: option.splits add: add.assoc)

lemma routerPkts_of_sum_list:
  "routerPkts_of qs = sum_list (map (\<lambda>qd. case qd of None \<Rightarrow> 0 | Some k \<Rightarrow> k) qs)"
  by (simp add: routerPkts_of_def routerPkts_of_fold)

lemma unat_sum_list_u32:
  "unat (sum_list (ws :: u32 list)) = sum_list (map unat ws) mod 2 ^ 32"
proof (induction ws)
  case Nil
  show ?case by simp
next
  case (Cons w ws)
  have "unat (w + sum_list ws) = (unat w + unat (sum_list ws)) mod 2 ^ 32"
    by (simp add: unat_word_ariths)
  also have "\<dots> = (unat w + sum_list (map unat ws) mod 2 ^ 32) mod 2 ^ 32"
    by (simp add: Cons.IH)
  also have "\<dots> = (unat w + sum_list (map unat ws)) mod 2 ^ 32"
    by (rule mod_add_right_eq)
  finally show ?case by simp
qed

lemma unat_routerPkts_of:
  "unat (routerPkts_of qs) =
     sum_list (map (\<lambda>qd. case qd of None \<Rightarrow> 0 | Some k \<Rightarrow> unat k) qs) mod 2 ^ 32"
proof -
  have "map unat (map (\<lambda>qd. case qd of None \<Rightarrow> 0 | Some k \<Rightarrow> k) qs) =
      map (\<lambda>qd. case qd of None \<Rightarrow> 0 | Some k \<Rightarrow> unat k) qs"
    by (simp split: option.splits)
  then show ?thesis
    by (simp only: routerPkts_of_sum_list unat_sum_list_u32)
qed

text \<open>
  Claim C5: in one firing of the sampler, the \<open>buffer_pkts\<close> value of the row written
  for every flow is the same number, the sum over all recorded queue discs of their
  current packet counts (a null pointer counts nothing). The sum is a 32-bit unsigned
  sum: it is the sum of the counts modulo \<open>2 ^ 32\<close>.
\<close>

theorem sample_buffer_aggregate:
  "(\<forall>i < length (ctx st). is_open (csv (ctx st ! i)) \<and> \<not> failed (csv (ctx st ! i)) \<longrightarrow>
      (\<exists>r. written (csv (ctx (DoSample S dt st) ! i)) = written (csv (ctx st ! i)) @ [Row r] \<and>
           buffer_pkts r = routerPkts_of (gQdiscs st))) \<and>
   routerPkts_of (gQdiscs st) =
     sum_list (map (\<lambda>qd. case qd of None \<Rightarrow> 0 | Some k \<Rightarrow> k) (gQdiscs st)) \<and>
   unat (routerPkts_of (gQdiscs st)) =
     sum_list (map (\<lambda>qd. case qd of None \<Rightarrow> 0 | Some k \<Rightarrow> unat k) (gQdiscs st)) mod 2 ^ 32"
proof (intro conjI allI impI)
  fix i
  assume i: "i < length (ctx st)"
    and op: "is_open (csv (ctx st ! i)) \<and> \<not> failed (csv (ctx st ! i))"
  obtain thr where "ctx (DoSample S dt st) ! i =
     (ctx st ! i)\<lparr>csv := ofstream_put
        (Row \<lparr>time = GetSeconds (now st),
              cwnd_pkts = ddiv (lastCwndBytes (ctx st ! i)) (max 1 (mssBytes (ctx st ! i))),
              throughput_mbps = thr,
              buffer_pkts = routerPkts_of (gQdiscs st),
              inflight_pkts = ddiv (inflightBytes (ctx st ! i)) (max 1 (mssBytes (ctx st ! i)))\<rparr>)
        (csv (ctx st ! i))\<rparr>"
    using DoSample_ctx_nth [OF i] by blast
  then show "\<exists>r. written (csv (ctx (DoSample S dt st) ! i)) = written (csv (ctx st ! i)) @ [Row r] \<and>
           buffer_pkts r = routerPkts_of (gQdiscs st)"
    using op by (simp add: ofstream_put_written)
next
  show "routerPkts_of (gQdiscs st) =
     sum_list (map (\<lambda>qd. case qd of None \<Rightarrow> 0 | Some k \<Rightarrow> k) (gQdiscs st))"
    by (rule routerPkts_of_sum_list)
  show "unat (routerPkts_of (gQdiscs st)) =
     sum_list (map (\<lambda>qd. case qd of None \<Rightarrow> 0 | Some k \<Rightarrow> unat k) (gQdiscs st)) mod 2 ^ 32"
    by (rule unat_routerPkts_of)
qed

lemma state_with_traffic_open:
  "length (ctx state_with_traffic) = 2"
  "i < 2 \<Longrightarrow> is_open (csv (ctx state_with_traffic ! i)) \<and> \<not> failed (csv (ctx state_with_traffic ! i))"
  "i < 2 \<Longrightarrow> written (csv (ctx state_with_traffic ! i)) = [Text header]"
  by (auto simp: state_with_traffic_eq state_after_setup_def less_2_cases_iff)

theorem sample_buffer_aggregate_witness:
  "(\<exists>r. written (csv (ctx (DoSample (Seconds engine_plain) (1 / 10) state_with_traffic) ! 0))
          = [Text header, Row r] \<and> buffer_pkts r = 5) \<and>
   (\<exists>r. written (csv (ctx (DoSample (Seconds engine_plain) (1 / 10) state_with_traffic) ! 1))
          = [Text header, Row r] \<and> buffer_pkts r = 5)"
proof -
  note t = sample_buffer_aggregate [of state_with_traffic "Seconds engine_plain" "1 / 10"]
  have rp: "routerPkts_of (gQdiscs state_with_traffic) = 5"
    using t [THEN conjunct2, THEN conjunct1]
    by (simp add: state_with_traffic_eq state_after_setup_def)
  have all: "\<forall>i < length (ctx state_with_traffic).
      is_open (csv (ctx state_with_traffic ! i)) \<and> \<not> failed (csv (ctx state_with_traffic ! i)) \<longrightarrow>
      (\<exists>r. written (csv (ctx (DoSample (Seconds engine_plain) (1 / 10) state_with_traffic) ! i))
            = written (csv (ctx state_with_traffic ! i)) @ [Row r] \<and>
           buffer_pkts r = routerPkts_of (gQdiscs state_with_traffic))"
    using t [THEN conjunct1] .
  have "\<exists>r. written (csv (ctx (DoSample (Seconds engine_plain) (1 / 10) state_with_traffic) ! i))
            = [Text header, Row r] \<and> buffer_pkts r = 5" if "i < 2" for i
    using all [rule_format, of i] that state_with_traffic_open(1) state_with_traffic_open(2) [of i]
      state_with_traffic_open(3) [of i] by (simp add: rp)
  then show ?thesis
    by simp
qed


lemma main_setup_args_mss0: "main_setup engine_plain args_mss0 [] = Inr state_mss0"
  by (simp add: main_setup_def args_mss0_def engine_plain_def Split_split_fields unat_flow_count
      setup_flow_def pick_algo_def ResolveTcpTypeId_def ns3Name_of_def registry_no_bbr_def
      warn_message_def
      ofstream_open_def ofstream_put_def FlowCtx_default_def ofstream_default_def Schedule_def
      Stop_def digit_char_def dec.simps Let_def state_mss0_def upt_conv_Cons)

lemma DBL_MAX_ge: "2 ^ 971 \<le> DBL_MAX"
proof -
  have "(1::real) \<le> 2 ^ 53 - 1"
    by simp
  then have "1 * (2::real) ^ 971 \<le> (2 ^ 53 - 1) * 2 ^ 971"
    by (rule mult_right_mono) simp
  then show ?thesis
    unfolding DBL_MAX_def by (simp only: mult_1)
qed

lemma DBL_MAX_ge_small: "2 ^ 67 \<le> DBL_MAX"
proof -
  have "(2::real) ^ 67 \<le> 2 ^ 971"
    by (rule power_increasing) simp_all
  with DBL_MAX_ge show ?thesis
    by (rule order_trans [rotated])
qed

lemma DBL_MAX_pos: "0 < DBL_MAX"
proof -
  have "(0::real) < 2 ^ 67"
    by simp
  with DBL_MAX_ge_small show ?thesis
    by (rule less_le_trans [rotated])
qed

lemma overflow_in_range: "\<bar>r\<bar> \<le> DBL_MAX \<Longrightarrow> overflow r = Finite r"
  by (auto simp: overflow_def)

lemma overflow_small: "\<bar>r\<bar> \<le> 2 ^ 67 \<Longrightarrow> overflow r = Finite r"
  using DBL_MAX_ge_small by (intro overflow_in_range) linarith

lemma overflow_nonneg: "0 \<le> r \<Longrightarrow> overflow r = PosInf \<or> overflow r = Finite r"
  using DBL_MAX_pos by (auto simp: overflow_def)

lemma ddiv_finite: "1 \<le> y \<Longrightarrow> ddiv x y = Finite (x / y)"
proof (cases "\<bar>x\<bar> \<le> DBL_MAX")
  case True
  assume y: "1 \<le> y"
  have "\<bar>x / y\<bar> = \<bar>x\<bar> / y"
    using y by simp
  also have "\<dots> \<le> \<bar>x\<bar> / 1"
    using y by (intro divide_left_mono) simp_all
  finally have "\<bar>x / y\<bar> \<le> DBL_MAX"
    using True by simp
  then show ?thesis
    using y True by (simp add: ddiv_def overflow_in_range)
next
  case False
  assume "1 \<le> y"
  then show ?thesis
    using False by (simp add: ddiv_def)
qed

lemma dmul_bytes: "dmul (real (unat (d :: u64))) 8 = Finite (real (unat d) * 8)"
proof -
  have "unat d < 2 ^ 64"
    using unsigned_less [of d, where ?'a = nat] by simp
  then have "real (unat d) < 2 ^ 64"
    by (metis of_nat_less_iff of_nat_numeral of_nat_power)
  then have "real (unat d) * 8 \<le> 2 ^ 67"
    by simp
  moreover have "0 \<le> real (unat d) * 8"
    by (rule mult_nonneg_nonneg) (rule of_nat_0_le_iff, simp)
  ultimately have "\<bar>real (unat d) * 8\<bar> \<le> 2 ^ 67"
    by linarith
  then show ?thesis
    unfolding dmul_def by (rule overflow_small)
qed

lemma throughput_nonneg:
  assumes "0 < dt"
  shows "ge_zero (ddiv_double (dmul (real (unat (d :: u64))) 8) (dmul dt 1000000))"
    and "d = 0 \<Longrightarrow> ddiv_double (dmul (real (unat d)) 8) (dmul dt 1000000) = Finite 0"
proof -
  let ?num = "real (unat d) * 8"
  let ?den = "dt * 1000000"
  have num: "0 \<le> ?num"
    by (rule mult_nonneg_nonneg) (rule of_nat_0_le_iff, simp)
  have n: "dmul (real (unat d)) 8 = Finite ?num"
    by (rule dmul_bytes)
  have small: "\<bar>?num\<bar> \<le> DBL_MAX"
    using n DBL_MAX_pos by (auto simp: dmul_def overflow_def split: if_splits)
  have den: "0 < ?den"
    using assms by simp
  then have "dmul dt 1000000 = PosInf \<or> dmul dt 1000000 = Finite ?den"
    unfolding dmul_def by (intro overflow_nonneg) simp
  then have "ge_zero (ddiv_double (dmul (real (unat d)) 8) (dmul dt 1000000)) \<and>
    (d = 0 \<longrightarrow> ddiv_double (dmul (real (unat d)) 8) (dmul dt 1000000) = Finite 0)"
  proof
    assume pinf: "dmul dt 1000000 = PosInf"
    show ?thesis
      unfolding n pinf by simp
  next
    assume f: "dmul dt 1000000 = Finite ?den"
    have q: "0 \<le> ?num / ?den"
      using num den by (rule divide_nonneg_pos)
    have e: "ddiv_double (dmul (real (unat d)) 8) (dmul dt 1000000) = overflow (?num / ?den)"
      unfolding n f using den small by (simp add: ddiv_def)
    have "ge_zero (overflow (?num / ?den))"
      using overflow_nonneg [OF q] q by auto
    moreover have "d = 0 \<longrightarrow> overflow (?num / ?den) = Finite 0"
      using DBL_MAX_pos by (simp add: overflow_def)
    ultimately show ?thesis
      unfolding e by blast
  qed
  then show "ge_zero (ddiv_double (dmul (real (unat d)) 8) (dmul dt 1000000))"
    and "d = 0 \<Longrightarrow> ddiv_double (dmul (real (unat d)) 8) (dmul dt 1000000) = Finite 0"
    by blast+
qed

text \<open>
  Claim C8: for every flow and every firing, the congestion window and the bytes in
  flight are divided by \<open>max 1 mssBytes\<close>. That divisor is at least 1, so both
  quotients are finite numbers (no division by zero), also when the MSS is 0, where the
  divisor is 1 and the row carries the byte counts themselves.
\<close>

theorem sample_packet_conversion_total:
  assumes "i < length (ctx st)"
    and "is_open (csv (ctx st ! i))" and "\<not> failed (csv (ctx st ! i))"
  shows "1 \<le> max 1 (mssBytes (ctx st ! i)) \<and>
    (\<exists>r. written (csv (ctx (DoSample S dt st) ! i)) = written (csv (ctx st ! i)) @ [Row r] \<and>
         cwnd_pkts r = Finite (lastCwndBytes (ctx st ! i) / max 1 (mssBytes (ctx st ! i))) \<and>
         inflight_pkts r = Finite (inflightBytes (ctx st ! i) / max 1 (mssBytes (ctx st ! i))) \<and>
         (mssBytes (ctx st ! i) = 0 \<longrightarrow>
            cwnd_pkts r = Finite (lastCwndBytes (ctx st ! i)) \<and>
            inflight_pkts r = Finite (inflightBytes (ctx st ! i))))"
proof
  show "1 \<le> max 1 (mssBytes (ctx st ! i))"
    by simp
next
  obtain thr where "ctx (DoSample S dt st) ! i =
     (ctx st ! i)\<lparr>csv := ofstream_put
        (Row \<lparr>time = GetSeconds (now st),
              cwnd_pkts = ddiv (lastCwndBytes (ctx st ! i)) (max 1 (mssBytes (ctx st ! i))),
              throughput_mbps = thr,
              buffer_pkts = routerPkts_of (gQdiscs st),
              inflight_pkts = ddiv (inflightBytes (ctx st ! i)) (max 1 (mssBytes (ctx st ! i)))\<rparr>)
        (csv (ctx st ! i))\<rparr>"
    using DoSample_ctx_nth [OF assms(1)] by blast
  then show "\<exists>r. written (csv (ctx (DoSample S dt st) ! i)) = written (csv (ctx st ! i)) @ [Row r] \<and>
         cwnd_pkts r = Finite (lastCwndBytes (ctx st ! i) / max 1 (mssBytes (ctx st ! i))) \<and>
         inflight_pkts r = Finite (inflightBytes (ctx st ! i) / max 1 (mssBytes (ctx st ! i))) \<and>
         (mssBytes (ctx st ! i) = 0 \<longrightarrow>
            cwnd_pkts r = Finite (lastCwndBytes (ctx st ! i)) \<and>
            inflight_pkts r = Finite (inflightBytes (ctx st ! i)))"
    using assms(2,3) by (simp add: ofstream_put_written ddiv_finite)
qed

theorem sample_packet_conversion_total_witness:
  "\<exists>r. written (csv (ctx (DoSample (Seconds engine_plain) (1 / 10) state_mss0) ! 0))
          = [Text header, Row r] \<and>
       cwnd_pkts r = Finite 1500 \<and> inflight_pkts r = Finite 0"
proof -
  have "0 < length (ctx state_mss0)"
    and "is_open (csv (ctx state_mss0 ! 0))" and "\<not> failed (csv (ctx state_mss0 ! 0))"
    by (simp_all add: state_mss0_def)
  note t = sample_packet_conversion_total [OF this, of "Seconds engine_plain" "1 / 10"]
  have sel: "written (csv (ctx state_mss0 ! 0)) = [Text header]"
    "lastCwndBytes (ctx state_mss0 ! 0) = 1500" "inflightBytes (ctx state_mss0 ! 0) = 0"
    "mssBytes (ctx state_mss0 ! 0) = 0"
    by (simp_all add: state_mss0_def)
  show ?thesis
    using t [THEN conjunct2] unfolding sel by auto
qed

text \<open>
  The throughput column. In every firing, for each flow \<open>i\<close> the sampler computes
  \<open>delta = max 0 (current i - previous i)\<close> on the 64-bit counters, without wrapping
  around when the counter has gone down; it then stores \<open>current i\<close> as
  \<open>previous i\<close>, and it writes the quotient of \<open>delta * 8\<close> by \<open>\<Delta>t * 1e6\<close> as
  \<open>throughput_mbps\<close>. When the period \<open>\<Delta>t\<close> is positive that value is at least 0 (it is
  a number that is at least 0, or the positive infinity of a quotient that has left the
  range of a double), and it is 0 when \<open>delta\<close> is 0.
\<close>

lemma DoSample_throughput_clamped:
  assumes "i < length (ctx st)" and "length (ctx st) \<le> 2 ^ 32"
    and "is_open (csv (ctx st ! i))" and "\<not> failed (csv (ctx st ! i))"
    and "cur = (case gRxBytes st (of_nat i) of None \<Rightarrow> 0 | Some v \<Rightarrow> v)"
    and "prev = (case gRxBytesPrev st (of_nat i) of None \<Rightarrow> 0 | Some v \<Rightarrow> v)"
  shows "\<exists>r delta.
      written (csv (ctx (DoSample S dt st) ! i)) = written (csv (ctx st ! i)) @ [Row r] \<and>
      delta = (if prev \<le> cur then cur - prev else 0) \<and>
      int (unat delta) = max 0 (int (unat cur) - int (unat prev)) \<and>
      gRxBytesPrev (DoSample S dt st) (of_nat i) = Some cur \<and>
      throughput_mbps r = ddiv_double (dmul (real (unat delta)) 8) (dmul dt 1000000) \<and>
      (0 < dt \<longrightarrow>
         ge_zero (throughput_mbps r) \<and>
         (delta = 0 \<longrightarrow> throughput_mbps r = Finite 0))"
proof -
  define delta where "delta = (if prev \<le> cur then cur - prev else 0)"
  have d: "int (unat delta) = max 0 (int (unat cur) - int (unat prev))"
  proof (cases "prev \<le> cur")
    case True
    then have "unat prev \<le> unat cur"
      by (simp add: word_le_nat_alt)
    moreover have "unat delta = unat cur - unat prev"
      using True by (simp add: delta_def unat_sub)
    ultimately show ?thesis
      by linarith
  next
    case False
    then have "unat cur < unat prev"
      by (simp add: word_le_nat_alt)
    moreover have "unat delta = 0"
      using False by (simp add: delta_def)
    ultimately show ?thesis
      by linarith
  qed
  let ?r = "\<lparr>time = GetSeconds (now st),
              cwnd_pkts = ddiv (lastCwndBytes (ctx st ! i)) (max 1 (mssBytes (ctx st ! i))),
              throughput_mbps = ddiv_double (dmul (real (unat delta)) 8) (dmul dt 1000000),
              buffer_pkts = routerPkts_of (gQdiscs st),
              inflight_pkts = ddiv (inflightBytes (ctx st ! i)) (max 1 (mssBytes (ctx st ! i)))\<rparr>"
  have "ctx (DoSample S dt st) ! i = (ctx st ! i)\<lparr>csv := ofstream_put (Row ?r) (csv (ctx st ! i))\<rparr>"
    using DoSample_ctx_nth_throughput [OF assms(1,2), of S dt]
    by (simp add: delta_def assms(5,6) Let_def)
  then have w: "written (csv (ctx (DoSample S dt st) ! i)) = written (csv (ctx st ! i)) @ [Row ?r]"
    using assms(3,4) by (simp add: ofstream_put_written)
  have p: "gRxBytesPrev (DoSample S dt st) (of_nat i) = Some cur"
    using DoSample_prev_nth [OF assms(1,2)] by (simp add: assms(5))
  have t: "throughput_mbps ?r = ddiv_double (dmul (real (unat delta)) 8) (dmul dt 1000000)"
    by simp
  have pos': "0 < dt \<longrightarrow>
         ge_zero (throughput_mbps ?r) \<and>
         (delta = 0 \<longrightarrow> throughput_mbps ?r = Finite 0)"
    unfolding t using throughput_nonneg [of dt delta] by blast
  show ?thesis
    by (intro exI [of _ ?r] exI [of _ delta] conjI) (rule w delta_def d p t pos')+
qed

text \<open>
  Claim C3: in every firing the throughput written for a flow is at least 0, and it is
  0 when \<open>delta\<close> is 0. The divisor \<open>\<Delta>t * 1e6\<close> is not guarded the way the divisor
  \<open>max 1 mssBytes\<close> of the two packet columns is, and the period 0 is accepted: the
  first event of the run with \<open>sampleDt = 0\<close> is the sampler, at time 0, with
  \<open>delta = 0\<close>, and the value it writes is the quotient of zero by zero, which is
  neither at least 0 nor 0.
\<close>

theorem sample_throughput_zero_period:
  "(case main_setup engine_plain args_zero_dt [] of
      Inl e \<Rightarrow> False
    | Inr st \<Rightarrow>
        written (csv (ctx (ProcessOneEvent engine_plain (sampleDt args_zero_dt) st) ! 0)) =
          [Text header,
           Row \<lparr>time = 0, cwnd_pkts = Finite 1, throughput_mbps = NaN, buffer_pkts = 0,
                inflight_pkts = Finite 0\<rparr>]) \<and>
   \<not> ge_zero NaN \<and> \<not> eq_zero NaN"
proof -
  have z: "dmul 0 8 = Finite 0" "dmul 0 1000000 = Finite 0"
    using DBL_MAX_pos by (simp_all add: dmul_def overflow_def)
  have c: "ddiv 1500 1500 = Finite 1" "ddiv 0 1500 = Finite 0"
    by (simp_all add: ddiv_finite)
  have n: "ddiv 0 0 = NaN"
    by (simp add: ddiv_def)
  show ?thesis
    by (simp add: main_setup_def args_zero_dt_def engine_plain_def Split_split_fields
      unat_flow_count setup_flow_def pick_algo_def ResolveTcpTypeId_def ns3Name_of_def
      registry_no_bbr_def ofstream_open_def ofstream_put_def FlowCtx_default_def
      ofstream_default_def Schedule_def Stop_def ProcessOneEvent_def dispatch_def DoSample_def
      DoSample_flow_def routerPkts_of_def map_index_def z c n GetSeconds_def
      digit_char_def dec.simps Let_def)
qed

subsection \<open>Setting up the flows\<close>

lemma digit_char_inj:
  assumes "a < 10" and "b < 10" and "digit_char a = digit_char b"
  shows "a = b"
proof -
  have "distinct ''0123456789''"
    by simp
  moreover have "a < length ''0123456789''" and "b < length ''0123456789''"
    using assms(1,2) by simp_all
  ultimately show ?thesis
    using assms(3) unfolding digit_char_def by (simp only: nth_eq_iff_index_eq)
qed

lemma dec_nonempty: "dec n \<noteq> []"
  by (subst dec.simps) simp

lemma dec_inj: "dec m = dec n \<Longrightarrow> m = n"
proof (induction m arbitrary: n rule: dec.induct)
  case (1 m)
  show ?case
  proof (cases "m < 10")
    case True
    then have m: "dec m = [digit_char m]"
      by (subst dec.simps) simp
    show ?thesis
    proof (cases "n < 10")
      case True
      then have "dec n = [digit_char n]"
        by (subst dec.simps) simp
      then have "digit_char m = digit_char n"
        using m "1.prems" by simp
      then show ?thesis
        using \<open>m < 10\<close> True by (rule digit_char_inj [rotated 2])
    next
      case False
      then have "dec n = dec (n div 10) @ [digit_char (n mod 10)]"
        by (subst dec.simps) simp
      then have "[digit_char m] = dec (n div 10) @ [digit_char (n mod 10)]"
        using m "1.prems" by simp
      then have "dec (n div 10) = []"
        by simp
      then show ?thesis
        using dec_nonempty by blast
    qed
  next
    case False
    then have m: "dec m = dec (m div 10) @ [digit_char (m mod 10)]"
      by (subst dec.simps) simp
    show ?thesis
    proof (cases "n < 10")
      case True
      then have "dec n = [digit_char n]"
        by (subst dec.simps) simp
      then have "dec (m div 10) @ [digit_char (m mod 10)] = [digit_char n]"
        using m "1.prems" by simp
      then have "dec (m div 10) = []"
        by simp
      then show ?thesis
        using dec_nonempty by blast
    next
      case n: False
      then have "dec n = dec (n div 10) @ [digit_char (n mod 10)]"
        by (subst dec.simps) simp
      then have eq: "dec (m div 10) = dec (n div 10)" "digit_char (m mod 10) = digit_char (n mod 10)"
        using m "1.prems" by simp_all
      have "m div 10 = n div 10"
        using "1.IH" [OF False eq(1)] .
      moreover have "m mod 10 = n mod 10"
        by (rule digit_char_inj [OF _ _ eq(2)]) simp_all
      ultimately show ?thesis
        by (metis div_mult_mod_eq)
    qed
  qed
qed

lemma for_each_append:
  "for_each body (xs @ ys) s =
     (case for_each body xs s of Inl e \<Rightarrow> Inl e | Inr s' \<Rightarrow> for_each body ys s')"
  by (induction xs arbitrary: s) (simp_all split: sum.splits)

lemma setup_flow_result:
  assumes ok: "setup_flow eng algos m i st = Inr st'"
    and i: "i < length (ctx st)" and fresh: "ctx st ! i = FlowCtx_default"
  shows "can_open eng (''trace_flow'' @ dec i @ ''.csv'') \<and>
    (\<exists>al. pick_algo algos i = Inr al \<and>
       ctx st' = (ctx st)[i :=
         \<lparr>algo = al, mssBytes = real (unat m), lastCwndBytes = 1500, inflightBytes = 0,
          csv = \<lparr>path = ''trace_flow'' @ dec i @ ''.csv'', is_open = True, failed = False,
                  written = [Text header]\<rparr>\<rparr>]) \<and>
    gRxBytes st' = gRxBytes st \<and> gRxBytesPrev st' = gRxBytesPrev st \<and>
    gQdiscs st' = gQdiscs st \<and> now st' = now st \<and> stopped st' = stopped st \<and>
    executed st' = executed st \<and>
    pending st' = pending st @ [(now st + Seconds eng (11 / 100), HookSenderTracesEv i)]"
proof -
  obtain al where al: "pick_algo algos i = Inr al"
    using ok by (cases "pick_algo algos i") (simp_all add: setup_flow_def)
  obtain ws tid where res: "ResolveTcpTypeId (LookupByNameFailSafe eng) al = (ws, Inr tid)"
    using ok al
    by (cases "ResolveTcpTypeId (LookupByNameFailSafe eng) al")
       (auto simp: setup_flow_def Let_def split: sum.splits)
  let ?fn = "''trace_flow'' @ dec i @ ''.csv''"
  let ?c = "(ctx st ! i)\<lparr>algo := al, mssBytes := real (unat m)\<rparr>"
  let ?f = "ofstream_open (can_open eng) ?fn (csv ?c)"
  have nf: "\<not> failed ?f"
    using ok al res by (auto simp: setup_flow_def Let_def split: if_splits)
  have can: "can_open eng ?fn"
    using nf by (auto simp: ofstream_open_def fresh FlowCtx_default_def ofstream_default_def
        split: if_splits)
  have f: "?f = \<lparr>path = ?fn, is_open = True, failed = False, written = []\<rparr>"
    using can by (simp add: ofstream_open_def fresh FlowCtx_default_def ofstream_default_def)
  have st': "st' = Schedule (Seconds eng (11 / 100)) (HookSenderTracesEv i)
      (st\<lparr>ctx := (ctx st)[i := ?c\<lparr>csv := ofstream_put (Text header) ?f\<rparr>],
          warnings := warnings st @ ws,
          socketType := socketType st @ [(''/NodeList/'' @ dec i @ ''/$ns3::TcpL4Protocol/SocketType'', tid)]\<rparr>)"
    using ok al res nf by (simp add: setup_flow_def Let_def)
  have c: "?c\<lparr>csv := ofstream_put (Text header) ?f\<rparr> =
      \<lparr>algo = al, mssBytes = real (unat m), lastCwndBytes = 1500, inflightBytes = 0,
       csv = \<lparr>path = ?fn, is_open = True, failed = False, written = [Text header]\<rparr>\<rparr>"
    unfolding f by (simp add: fresh FlowCtx_default_def ofstream_put_def)
  show ?thesis
    using can al unfolding st' c by (simp add: Schedule_def)
qed


text \<open>The state of the loop of lines 202-220 after its first \<open>k\<close> iterations.\<close>

lemma setup_loop:
  assumes "for_each (setup_flow eng algos m) [0..<k] st0 = Inr st"
    and "k \<le> length (ctx st0)"
    and "\<forall>i<length (ctx st0). ctx st0 ! i = FlowCtx_default"
  shows "length (ctx st) = length (ctx st0) \<and>
    (\<forall>i<k. can_open eng (''trace_flow'' @ dec i @ ''.csv'') \<and>
       (\<exists>al. pick_algo algos i = Inr al \<and>
          ctx st ! i =
            \<lparr>algo = al, mssBytes = real (unat m), lastCwndBytes = 1500, inflightBytes = 0,
             csv = \<lparr>path = ''trace_flow'' @ dec i @ ''.csv'', is_open = True, failed = False,
                     written = [Text header]\<rparr>\<rparr>)) \<and>
    (\<forall>i. k \<le> i \<longrightarrow> i < length (ctx st0) \<longrightarrow> ctx st ! i = FlowCtx_default) \<and>
    gRxBytes st = gRxBytes st0 \<and> gRxBytesPrev st = gRxBytesPrev st0 \<and>
    gQdiscs st = gQdiscs st0 \<and> now st = now st0 \<and> stopped st = stopped st0 \<and>
    executed st = executed st0 \<and>
    pending st = pending st0 @
      map (\<lambda>i. (now st0 + Seconds eng (11 / 100), HookSenderTracesEv i)) [0..<k]"
  using assms
proof (induction k arbitrary: st)
  case 0
  then show ?case by simp
next
  case (Suc k)
  from Suc.prems(1) obtain st1 where
    st1: "for_each (setup_flow eng algos m) [0..<k] st0 = Inr st1"
    and step: "setup_flow eng algos m k st1 = Inr st"
    by (auto simp: for_each_append split: sum.splits)
  have k: "k \<le> length (ctx st0)" and k': "k < length (ctx st0)"
    using Suc.prems(2) by simp_all
  note ih = Suc.IH [OF st1 k Suc.prems(3)]
  have len1: "length (ctx st1) = length (ctx st0)"
    using ih by blast
  have fresh: "ctx st1 ! k = FlowCtx_default"
    using ih k' by blast
  have k1: "k < length (ctx st1)"
    using k' len1 by simp
  note r = setup_flow_result [OF step k1 fresh]
  obtain al where al: "pick_algo algos k = Inr al"
    and ctx': "ctx st = (ctx st1)[k :=
         \<lparr>algo = al, mssBytes = real (unat m), lastCwndBytes = 1500, inflightBytes = 0,
          csv = \<lparr>path = ''trace_flow'' @ dec k @ ''.csv'', is_open = True, failed = False,
                  written = [Text header]\<rparr>\<rparr>]"
    using r by blast
  have len: "length (ctx st) = length (ctx st0)"
    using ctx' len1 by simp
  have ready: "can_open eng (''trace_flow'' @ dec i @ ''.csv'') \<and>
       (\<exists>al. pick_algo algos i = Inr al \<and>
          ctx st ! i =
            \<lparr>algo = al, mssBytes = real (unat m), lastCwndBytes = 1500, inflightBytes = 0,
             csv = \<lparr>path = ''trace_flow'' @ dec i @ ''.csv'', is_open = True, failed = False,
                     written = [Text header]\<rparr>\<rparr>)" if "i < Suc k" for i
  proof (cases "i = k")
    case True
    then show ?thesis
      using r al ctx' k1 by simp
  next
    case False
    then have "i < k"
      using that by simp
    moreover have "ctx st ! i = ctx st1 ! i"
      using False ctx' by simp
    ultimately show ?thesis
      using ih by simp
  qed
  have rest: "ctx st ! i = FlowCtx_default" if "Suc k \<le> i" and "i < length (ctx st0)" for i
  proof -
    have "ctx st ! i = ctx st1 ! i"
      using that(1) ctx' by simp
    then show ?thesis
      using ih that by simp
  qed
  have frame: "gRxBytes st = gRxBytes st0 \<and> gRxBytesPrev st = gRxBytesPrev st0 \<and>
    gQdiscs st = gQdiscs st0 \<and> now st = now st0 \<and> stopped st = stopped st0 \<and>
    executed st = executed st0"
    using r ih by simp
  have pend: "pending st = pending st0 @
      map (\<lambda>i. (now st0 + Seconds eng (11 / 100), HookSenderTracesEv i)) [0..<Suc k]"
    using r ih by simp
  show ?case
    using len ready rest frame pend by blast
qed

text \<open>What \<open>main\<close> has built when it reaches \<open>Simulator::Run\<close>.\<close>

lemma main_setup_result:
  assumes "main_setup eng a trace = Inr st"
  shows "length (ctx st) = unat (flow_count (Split (flows a) CHR '','')) \<and>
    (\<forall>i<length (ctx st). can_open eng (''trace_flow'' @ dec i @ ''.csv'') \<and>
       (\<exists>al. pick_algo (Split (flows a) CHR '','') i = Inr al \<and>
          ctx st ! i =
            \<lparr>algo = al, mssBytes = real (unat (mss a)), lastCwndBytes = 1500, inflightBytes = 0,
             csv = \<lparr>path = ''trace_flow'' @ dec i @ ''.csv'', is_open = True, failed = False,
                     written = [Text header]\<rparr>\<rparr>)) \<and>
    now st = 0 \<and> \<not> stopped st \<and> executed st = [] \<and>
    pending st =
      map (\<lambda>i. (Seconds eng (11 / 100), HookSenderTracesEv i)) [0..<length (ctx st)] @
      [(Seconds eng (sampleDt a), DoSampleEv),
       (Seconds eng (real (unat (duration a))), StopEv)] @ trace"
proof -
  let ?algos = "Split (flows a) CHR '',''"
  let ?n = "unat (flow_count ?algos)"
  let ?st0 = "\<lparr>gRxBytes = Map.empty, gRxBytesPrev = Map.empty,
                 gQdiscs = replicate ?n (Some 0), ctx = replicate ?n FlowCtx_default,
                 warnings = [], socketType = [], connected = [],
                 now = 0, pending = [], stopped = False, executed = []\<rparr>"
  obtain st1 where loop: "for_each (setup_flow eng ?algos (mss a)) [0..<?n] ?st0 = Inr st1"
    and st: "st = (Stop (Seconds eng (real (unat (duration a))))
                    (Schedule (Seconds eng (sampleDt a)) DoSampleEv st1))
                  \<lparr>pending := pending (Stop (Seconds eng (real (unat (duration a))))
                    (Schedule (Seconds eng (sampleDt a)) DoSampleEv st1)) @ trace\<rparr>"
    using assms by (auto simp: main_setup_def Let_def split: sum.splits)
  have "?n \<le> length (ctx ?st0)" and "\<forall>i<length (ctx ?st0). ctx ?st0 ! i = FlowCtx_default"
    by simp_all
  note l = setup_loop [OF loop this]
  have len: "length (ctx st) = ?n"
    using l by (simp add: st Stop_def Schedule_def)
  have c: "ctx st = ctx st1"
    by (simp add: st Stop_def Schedule_def)
  show ?thesis
    using l unfolding c [symmetric] by (simp add: st Stop_def Schedule_def len)
qed


subsection \<open>What the events of a run leave unchanged\<close>

lemma DoSample_flow_executed [simp]: "executed (DoSample_flow dt rp j st) = executed st"
  by (simp add: DoSample_flow_def Let_def split_beta)

lemma fold_DoSample_flow_executed:
  "executed (fold (DoSample_flow dt rp) js st) = executed st"
  by (induction js arbitrary: st) simp_all

lemma DoSample_length: "length (ctx (DoSample S dt st)) = length (ctx st)"
  by (simp add: DoSample_def Let_def fold_DoSample_flow_frame)

lemma DoSample_executed: "executed (DoSample S dt st) = executed st"
  by (simp add: DoSample_def Let_def fold_DoSample_flow_executed Schedule_def)

lemma DoSample_lastCwndBytes:
  assumes "i < length (ctx st)"
  shows "lastCwndBytes (ctx (DoSample S dt st) ! i) = lastCwndBytes (ctx st ! i)"
proof -
  obtain r where "ctx (DoSample S dt st) ! i =
      (ctx st ! i)\<lparr>csv := ofstream_put (Row r) (csv (ctx st ! i))\<rparr>"
    using DoSample_ctx_nth [OF assms] by blast
  then show ?thesis
    by simp
qed

lemma dispatch_length: "length (ctx (dispatch eng dt ev st)) = length (ctx st)"
  by (cases ev)
     (simp_all add: dispatch_def DoSample_length HookSenderTraces_def CwndTrace_def
        InflightTrace_def RxTrace_def Let_def split_beta)

lemma dispatch_executed: "executed (dispatch eng dt ev st) = executed st"
  by (cases ev)
     (simp_all add: dispatch_def DoSample_executed HookSenderTraces_def CwndTrace_def
        InflightTrace_def RxTrace_def Let_def split_beta)

text \<open>
  One event and one flow: the stream stays open, the MSS stays, at most one data row is
  appended, and only the flow's own \<open>CwndTrace\<close> changes \<open>lastCwndBytes\<close>.
\<close>

lemma dispatch_flow:
  assumes i: "i < length (ctx st)"
    and op: "is_open (csv (ctx st ! i))" "\<not> failed (csv (ctx st ! i))"
  shows "is_open (csv (ctx (dispatch eng dt ev st) ! i)) \<and>
    \<not> failed (csv (ctx (dispatch eng dt ev st) ! i)) \<and>
    path (csv (ctx (dispatch eng dt ev st) ! i)) = path (csv (ctx st ! i)) \<and>
    mssBytes (ctx (dispatch eng dt ev st) ! i) = mssBytes (ctx st ! i) \<and>
    (\<exists>rs. written (csv (ctx (dispatch eng dt ev st) ! i)) =
            written (csv (ctx st ! i)) @ map Row rs) \<and>
    ((\<forall>oldCwnd newCwnd. ev \<noteq> CwndTraceEv i oldCwnd newCwnd) \<longrightarrow>
       lastCwndBytes (ctx (dispatch eng dt ev st) ! i) = lastCwndBytes (ctx st ! i))"
proof (cases ev)
  case DoSampleEv
  obtain thr where c: "ctx (DoSample (Seconds eng) dt st) ! i =
     (ctx st ! i)\<lparr>csv := ofstream_put
        (Row \<lparr>time = GetSeconds (now st),
              cwnd_pkts = ddiv (lastCwndBytes (ctx st ! i)) (max 1 (mssBytes (ctx st ! i))),
              throughput_mbps = thr,
              buffer_pkts = routerPkts_of (gQdiscs st),
              inflight_pkts = ddiv (inflightBytes (ctx st ! i)) (max 1 (mssBytes (ctx st ! i)))\<rparr>)
        (csv (ctx st ! i))\<rparr>"
    using DoSample_ctx_nth [OF i] by blast
  have d: "dispatch eng dt ev st = DoSample (Seconds eng) dt st"
    by (simp add: dispatch_def DoSampleEv)
  have "\<exists>rs. written (csv (ctx (dispatch eng dt ev st) ! i)) =
            written (csv (ctx st ! i)) @ map Row rs"
    unfolding d c using op by (intro exI [of _ "[_]"]) (simp add: ofstream_put_def)
  then show ?thesis
    unfolding d c using op by (simp add: ofstream_put_def)
next
  case StopEv
  then show ?thesis
    using op by (simp add: dispatch_def)
next
  case (HookSenderTracesEv j)
  then show ?thesis
    using op by (simp add: dispatch_def HookSenderTraces_def Let_def)
next
  case (CwndTraceEv j oldCwnd newCwnd)
  show ?thesis
  proof (cases "j = i")
    case True
    then show ?thesis
      using op i CwndTraceEv by (simp add: dispatch_def CwndTrace_def)
  next
    case False
    then show ?thesis
      using op i CwndTraceEv by (simp add: dispatch_def CwndTrace_def)
  qed
next
  case (InflightTraceEv j oldVal newVal)
  show ?thesis
  proof (cases "j = i")
    case True
    then show ?thesis
      using op i InflightTraceEv by (simp add: dispatch_def InflightTrace_def)
  next
    case False
    then show ?thesis
      using op i InflightTraceEv by (simp add: dispatch_def InflightTrace_def)
  qed
next
  case (RxTraceEv idx sz)
  then show ?thesis
    using op by (simp add: dispatch_def RxTrace_def Let_def split_beta)
next
  case (QueueEv j k)
  then show ?thesis
    using op by (simp add: dispatch_def)
qed

lemma ProcessOneEvent_flow:
  assumes i: "i < length (ctx st)"
    and op: "is_open (csv (ctx st ! i))" "\<not> failed (csv (ctx st ! i))"
  shows "length (ctx (ProcessOneEvent eng dt st)) = length (ctx st) \<and>
    is_open (csv (ctx (ProcessOneEvent eng dt st) ! i)) \<and>
    \<not> failed (csv (ctx (ProcessOneEvent eng dt st) ! i)) \<and>
    path (csv (ctx (ProcessOneEvent eng dt st) ! i)) = path (csv (ctx st ! i)) \<and>
    mssBytes (ctx (ProcessOneEvent eng dt st) ! i) = mssBytes (ctx st ! i) \<and>
    (\<exists>rs. written (csv (ctx (ProcessOneEvent eng dt st) ! i)) =
            written (csv (ctx st ! i)) @ map Row rs) \<and>
    (\<exists>es. executed (ProcessOneEvent eng dt st) = executed st @ es) \<and>
    ((\<forall>t oldCwnd newCwnd.
         (t, CwndTraceEv i oldCwnd newCwnd) \<notin> set (executed (ProcessOneEvent eng dt st))) \<longrightarrow>
       lastCwndBytes (ctx (ProcessOneEvent eng dt st) ! i) = lastCwndBytes (ctx st ! i))"
proof (cases "pop_next (pending st)")
  case None
  then have "ProcessOneEvent eng dt st = st"
    by (simp add: ProcessOneEvent_def)
  then show ?thesis
    using op by (simp add: exI [of _ "[]"])
next
  case (Some x)
  obtain t ev rest where x: "x = ((t, ev), rest)"
    by (metis prod.exhaust)
  let ?st = "st\<lparr>pending := rest, now := t, executed := executed st @ [(t, ev)]\<rparr>"
  have p: "ProcessOneEvent eng dt st = dispatch eng dt ev ?st"
    by (simp add: ProcessOneEvent_def Some x)
  have i': "i < length (ctx ?st)"
    and op': "is_open (csv (ctx ?st ! i))" "\<not> failed (csv (ctx ?st ! i))"
    using i op by simp_all
  note d = dispatch_flow [OF i' op', of eng dt ev]
  have ex: "executed (dispatch eng dt ev ?st) = executed st @ [(t, ev)]"
    by (simp add: dispatch_executed)
  have cw: "lastCwndBytes (ctx (dispatch eng dt ev ?st) ! i) = lastCwndBytes (ctx st ! i)"
    if "\<forall>t oldCwnd newCwnd. (t, CwndTraceEv i oldCwnd newCwnd) \<notin> set (executed (dispatch eng dt ev ?st))"
  proof -
    have "\<forall>oldCwnd newCwnd. ev \<noteq> CwndTraceEv i oldCwnd newCwnd"
      using that unfolding ex by auto
    then show ?thesis
      using d by simp
  qed
  show ?thesis
    unfolding p using d cw ex by (simp add: dispatch_length)
qed

lemma steps_flow:
  assumes i: "i < length (ctx st)"
    and op: "is_open (csv (ctx st ! i))" "\<not> failed (csv (ctx st ! i))"
  shows "length (ctx ((ProcessOneEvent eng dt ^^ k) st)) = length (ctx st) \<and>
    is_open (csv (ctx ((ProcessOneEvent eng dt ^^ k) st) ! i)) \<and>
    \<not> failed (csv (ctx ((ProcessOneEvent eng dt ^^ k) st) ! i)) \<and>
    path (csv (ctx ((ProcessOneEvent eng dt ^^ k) st) ! i)) = path (csv (ctx st ! i)) \<and>
    mssBytes (ctx ((ProcessOneEvent eng dt ^^ k) st) ! i) = mssBytes (ctx st ! i) \<and>
    (\<exists>rs. written (csv (ctx ((ProcessOneEvent eng dt ^^ k) st) ! i)) =
            written (csv (ctx st ! i)) @ map Row rs) \<and>
    (\<exists>es. executed ((ProcessOneEvent eng dt ^^ k) st) = executed st @ es) \<and>
    ((\<forall>t oldCwnd newCwnd.
         (t, CwndTraceEv i oldCwnd newCwnd) \<notin> set (executed ((ProcessOneEvent eng dt ^^ k) st))) \<longrightarrow>
       lastCwndBytes (ctx ((ProcessOneEvent eng dt ^^ k) st) ! i) = lastCwndBytes (ctx st ! i))"
proof (induction k)
  case 0
  show ?case
    using op by (simp add: exI [of _ "[]"])
next
  case (Suc k)
  let ?s = "(ProcessOneEvent eng dt ^^ k) st"
  have i': "i < length (ctx ?s)"
    and op': "is_open (csv (ctx ?s ! i))" "\<not> failed (csv (ctx ?s ! i))"
    using Suc.IH i by simp_all
  note n = ProcessOneEvent_flow [OF i' op', of eng dt]
  obtain rs where rs: "written (csv (ctx ?s ! i)) = written (csv (ctx st ! i)) @ map Row rs"
    using Suc.IH by blast
  obtain rs' where rs': "written (csv (ctx (ProcessOneEvent eng dt ?s) ! i)) =
      written (csv (ctx ?s ! i)) @ map Row rs'"
    using n by blast
  have w: "\<exists>rs. written (csv (ctx (ProcessOneEvent eng dt ?s) ! i)) =
      written (csv (ctx st ! i)) @ map Row rs"
    unfolding rs' rs by (intro exI [of _ "rs @ rs'"]) simp
  obtain es where es: "executed ?s = executed st @ es"
    using Suc.IH by blast
  obtain es' where es': "executed (ProcessOneEvent eng dt ?s) = executed ?s @ es'"
    using n by blast
  have e: "\<exists>es. executed (ProcessOneEvent eng dt ?s) = executed st @ es"
    unfolding es' es by simp
  have cw: "lastCwndBytes (ctx (ProcessOneEvent eng dt ?s) ! i) = lastCwndBytes (ctx st ! i)"
    if h: "\<forall>t oldCwnd newCwnd.
         (t, CwndTraceEv i oldCwnd newCwnd) \<notin> set (executed (ProcessOneEvent eng dt ?s))"
  proof -
    have "\<forall>t oldCwnd newCwnd. (t, CwndTraceEv i oldCwnd newCwnd) \<notin> set (executed ?s)"
      using h unfolding es' by auto
    then have "lastCwndBytes (ctx ?s ! i) = lastCwndBytes (ctx st ! i)"
      using Suc.IH by blast
    moreover have "lastCwndBytes (ctx (ProcessOneEvent eng dt ?s) ! i) = lastCwndBytes (ctx ?s ! i)"
      using n h by blast
    ultimately show ?thesis
      by simp
  qed
  show ?case
    using n Suc.IH w e cw by simp
qed


lemma main_setup_trace_cwnd1:
  "main_setup engine_plain args_two trace_cwnd1 =
     Inr (state_after_setup\<lparr>pending := pending state_after_setup @ trace_cwnd1\<rparr>)"
  by (simp add: main_setup_def args_two_def engine_plain_def Split_split_fields unat_flow_count
      setup_flow_def pick_algo_def ResolveTcpTypeId_def ns3Name_of_def registry_no_bbr_def
      ofstream_open_def ofstream_put_def FlowCtx_default_def ofstream_default_def Schedule_def
      Stop_def digit_char_def dec.simps Let_def state_after_setup_def upt_conv_Cons)

lemma funpow_2: "(f ^^ 2) s = f (f s)"
  by (simp add: numeral_2_eq_2)

lemma two_steps_trace_cwnd1:
  "executed ((ProcessOneEvent engine_plain (1 / 10) ^^ 2)
      (state_after_setup\<lparr>pending := pending state_after_setup @ trace_cwnd1\<rparr>)) =
     [(0, CwndTraceEv 1 0 3000), (100000000, DoSampleEv)] \<and>
   lastCwndBytes (ctx ((ProcessOneEvent engine_plain (1 / 10) ^^ 2)
      (state_after_setup\<lparr>pending := pending state_after_setup @ trace_cwnd1\<rparr>)) ! 1) = 3000"
  by (simp add: funpow_2 ProcessOneEvent_def state_after_setup_def trace_cwnd1_def
      dispatch_def CwndTrace_def DoSample_executed DoSample_lastCwndBytes Let_def)

text \<open>
  Claim C1, as stated: before any congestion-window observation, \<open>lastCwndBytes\<close> equals
  the flow's \<open>mssBytes\<close>, whatever the MSS parameter. It fails for \<open>mss = 1000\<close>: setup
  leaves \<open>lastCwndBytes\<close> at the initialiser 1500 and sets \<open>mssBytes\<close> to 1000.
\<close>

theorem initial_cwnd_not_one_mss_counterexample:
  "main_setup engine_plain args_two [] = Inr state_after_setup \<and>
   mss args_two = 1000 \<and>
   lastCwndBytes (ctx state_after_setup ! 0) = 1500 \<and>
   mssBytes (ctx state_after_setup ! 0) = 1000 \<and>
   lastCwndBytes (ctx state_after_setup ! 0) \<noteq> mssBytes (ctx state_after_setup ! 0)"
  using main_setup_args_two by (simp add: state_after_setup_def args_two_def)

text \<open>
  Claim C1, amended: for every flow, in every state the run reaches before a
  \<open>CwndTrace\<close> callback of that flow has been processed, \<open>lastCwndBytes\<close> is 1500 (the
  initialiser of the struct, one default MSS) and \<open>mssBytes\<close> is the MSS parameter; the
  two are equal exactly when the parameter is 1500, and a sample taken in such a state
  reports \<open>cwnd_pkts = 1500 / max 1 mss\<close>.
\<close>

theorem initial_cwnd_before_first_observation:
  assumes "main_setup eng a trace = Inr st" and "i < length (ctx st)"
    and "st' = (ProcessOneEvent eng (sampleDt a) ^^ k) st"
    and "\<forall>t oldCwnd newCwnd. (t, CwndTraceEv i oldCwnd newCwnd) \<notin> set (executed st')"
  shows "lastCwndBytes (ctx st' ! i) = 1500 \<and>
    mssBytes (ctx st' ! i) = real (unat (mss a)) \<and>
    (lastCwndBytes (ctx st' ! i) = mssBytes (ctx st' ! i) \<longleftrightarrow> mss a = 1500) \<and>
    (\<exists>r. written (csv (ctx (DoSample (Seconds eng) (sampleDt a) st') ! i)) =
            written (csv (ctx st' ! i)) @ [Row r] \<and>
         cwnd_pkts r = Finite (1500 / max 1 (real (unat (mss a)))))"
proof -
  note m = main_setup_result [OF assms(1)]
  have c: "lastCwndBytes (ctx st ! i) = 1500" "mssBytes (ctx st ! i) = real (unat (mss a))"
    "is_open (csv (ctx st ! i))" "\<not> failed (csv (ctx st ! i))"
    using m assms(2) by auto
  note s = steps_flow [where eng = eng and dt = "sampleDt a" and k = k, OF assms(2) c(3,4),
      folded assms(3)]
  have l: "lastCwndBytes (ctx st' ! i) = 1500"
    using s assms(4) c(1) by simp
  have ms: "mssBytes (ctx st' ! i) = real (unat (mss a))"
    using s c(2) by simp
  have "(real (unat (mss a)) = 1500) = (unat (mss a) = 1500)"
    by (metis of_nat_eq_iff of_nat_numeral)
  also have "\<dots> = (mss a = 1500)"
    by (auto simp: word_eq_iff_unsigned [where ?'a = nat])
  finally have iff: "(lastCwndBytes (ctx st' ! i) = mssBytes (ctx st' ! i)) = (mss a = 1500)"
    unfolding l ms by (simp add: eq_commute)
  have i': "i < length (ctx st')"
    and op: "is_open (csv (ctx st' ! i))" "\<not> failed (csv (ctx st' ! i))"
    using s assms(2) by simp_all
  obtain thr where "ctx (DoSample (Seconds eng) (sampleDt a) st') ! i =
     (ctx st' ! i)\<lparr>csv := ofstream_put
        (Row \<lparr>time = GetSeconds (now st'),
              cwnd_pkts = ddiv (lastCwndBytes (ctx st' ! i)) (max 1 (mssBytes (ctx st' ! i))),
              throughput_mbps = thr,
              buffer_pkts = routerPkts_of (gQdiscs st'),
              inflight_pkts = ddiv (inflightBytes (ctx st' ! i)) (max 1 (mssBytes (ctx st' ! i)))\<rparr>)
        (csv (ctx st' ! i))\<rparr>"
    using DoSample_ctx_nth [OF i'] by blast
  then have row: "\<exists>r. written (csv (ctx (DoSample (Seconds eng) (sampleDt a) st') ! i)) =
            written (csv (ctx st' ! i)) @ [Row r] \<and>
         cwnd_pkts r = Finite (1500 / max 1 (real (unat (mss a))))"
    using op by (simp add: ofstream_put_written ddiv_finite l ms)
  show ?thesis
    using l ms iff row by blast
qed


theorem initial_cwnd_before_first_observation_witness:
  "lastCwndBytes (ctx ((ProcessOneEvent engine_plain (1 / 10) ^^ 2)
      (state_after_setup\<lparr>pending := pending state_after_setup @ trace_cwnd1\<rparr>)) ! 0) = 1500 \<and>
   mssBytes (ctx ((ProcessOneEvent engine_plain (1 / 10) ^^ 2)
      (state_after_setup\<lparr>pending := pending state_after_setup @ trace_cwnd1\<rparr>)) ! 0) = 1000 \<and>
   lastCwndBytes (ctx ((ProcessOneEvent engine_plain (1 / 10) ^^ 2)
      (state_after_setup\<lparr>pending := pending state_after_setup @ trace_cwnd1\<rparr>)) ! 1) = 3000"
proof -
  let ?st = "state_after_setup\<lparr>pending := pending state_after_setup @ trace_cwnd1\<rparr>"
  let ?st' = "(ProcessOneEvent engine_plain (1 / 10) ^^ 2) ?st"
  have dt: "sampleDt args_two = 1 / 10" and m: "mss args_two = 1000"
    by (simp_all add: args_two_def)
  have h1: "main_setup engine_plain args_two trace_cwnd1 = Inr ?st"
    by (rule main_setup_trace_cwnd1)
  have h2: "0 < length (ctx ?st)"
    by (simp add: state_after_setup_def)
  have h3: "?st' = (ProcessOneEvent engine_plain (sampleDt args_two) ^^ 2) ?st"
    by (simp only: dt)
  have h4: "\<forall>t oldCwnd newCwnd. (t, CwndTraceEv 0 oldCwnd newCwnd) \<notin> set (executed ?st')"
    by (simp add: two_steps_trace_cwnd1 [THEN conjunct1])
  note t = initial_cwnd_before_first_observation [OF h1 h2 h3 h4]
  show ?thesis
    using t two_steps_trace_cwnd1 [THEN conjunct2] by (simp add: m)
qed

lemma setup_flow_open_fails:
  assumes "pick_algo algos i = Inr al"
    and "snd (ResolveTcpTypeId (LookupByNameFailSafe eng) al) = Inr tid"
    and "\<not> can_open eng (''trace_flow'' @ dec i @ ''.csv'')"
  shows "setup_flow eng algos m i st = Inl (Fatal (''Failed to open CSV for flow '' @ dec i))"
proof -
  obtain ws where "ResolveTcpTypeId (LookupByNameFailSafe eng) al = (ws, Inr tid)"
    using assms(2) by (cases "ResolveTcpTypeId (LookupByNameFailSafe eng) al") simp
  then show ?thesis
    using assms(1,3) by (simp add: setup_flow_def Let_def ofstream_open_def)
qed

lemma main_setup_paths_distinct:
  assumes "main_setup eng a trace = Inr st"
  shows "distinct (map (\<lambda>c. path (csv c)) (ctx st))"
proof -
  note m = main_setup_result [OF assms]
  have p: "path (csv (ctx st ! i)) = ''trace_flow'' @ dec i @ ''.csv''" if "i < length (ctx st)" for i
    using m that by auto
  have "map (\<lambda>c. path (csv c)) (ctx st) ! i \<noteq> map (\<lambda>c. path (csv c)) (ctx st) ! j"
    if "i < length (ctx st)" and "j < length (ctx st)" and "i \<noteq> j" for i j
  proof
    assume "map (\<lambda>c. path (csv c)) (ctx st) ! i = map (\<lambda>c. path (csv c)) (ctx st) ! j"
    then have "''trace_flow'' @ dec i @ ''.csv'' = ''trace_flow'' @ dec j @ ''.csv''"
      using that p by simp
    then have "dec i = dec j"
      by simp
    then show False
      using that(3) dec_inj by blast
  qed
  then show ?thesis
    by (simp add: distinct_conv_nth)
qed

text \<open>
  Claim C7: when setup succeeds there is one context per flow, each with a stream that
  was opened on the file \<open>trace_flow<i>.csv\<close> of its own index (the names are pairwise
  different), and the stream holds the header line and nothing else; through the whole
  run the header stays the first line and every later line is a data row. When the
  file of a flow cannot be opened, the loop body for that flow ends in the fatal error
  \<open>Failed to open CSV for flow <i>\<close>, and \<open>main\<close> does not get past setup.
\<close>

theorem setup_opens_one_sink_per_flow:
  "(main_setup eng a trace = Inr st \<longrightarrow>
      length (ctx st) = unat (flow_count (Split (flows a) CHR '','')) \<and>
      distinct (map (\<lambda>c. path (csv c)) (ctx st)) \<and>
      (\<forall>i<length (ctx st).
         can_open eng (''trace_flow'' @ dec i @ ''.csv'') \<and>
         csv (ctx st ! i) =
           \<lparr>path = ''trace_flow'' @ dec i @ ''.csv'', is_open = True, failed = False,
            written = [Text ''time,cwnd_pkts,throughput_mbps,buffer_pkts,inflight_pkts'']\<rparr> \<and>
         (\<forall>k. \<exists>rs. written (csv (ctx ((ProcessOneEvent eng (sampleDt a) ^^ k) st) ! i)) =
                  Text ''time,cwnd_pkts,throughput_mbps,buffer_pkts,inflight_pkts'' # map Row rs))) \<and>
   (pick_algo algos j = Inr al \<and>
    snd (ResolveTcpTypeId (LookupByNameFailSafe eng) al) = Inr tid \<and>
    \<not> can_open eng (''trace_flow'' @ dec j @ ''.csv'') \<longrightarrow>
      setup_flow eng algos m j st0 = Inl (Fatal (''Failed to open CSV for flow '' @ dec j))) \<and>
   ((\<exists>i < unat (flow_count (Split (flows a) CHR '','')).
        \<not> can_open eng (''trace_flow'' @ dec i @ ''.csv'')) \<longrightarrow>
      (\<exists>e. main_setup eng a trace = Inl e))"
proof (intro conjI impI)
  assume ok: "main_setup eng a trace = Inr st"
  note m = main_setup_result [OF ok]
  show "length (ctx st) = unat (flow_count (Split (flows a) CHR '',''))"
    using m by blast
  show "distinct (map (\<lambda>c. path (csv c)) (ctx st))"
    using ok by (rule main_setup_paths_distinct)
  show "\<forall>i<length (ctx st).
         can_open eng (''trace_flow'' @ dec i @ ''.csv'') \<and>
         csv (ctx st ! i) =
           \<lparr>path = ''trace_flow'' @ dec i @ ''.csv'', is_open = True, failed = False,
            written = [Text ''time,cwnd_pkts,throughput_mbps,buffer_pkts,inflight_pkts'']\<rparr> \<and>
         (\<forall>k. \<exists>rs. written (csv (ctx ((ProcessOneEvent eng (sampleDt a) ^^ k) st) ! i)) =
                  Text ''time,cwnd_pkts,throughput_mbps,buffer_pkts,inflight_pkts'' # map Row rs)"
  proof (intro allI impI)
    fix i
    assume i: "i < length (ctx st)"
    have can: "can_open eng (''trace_flow'' @ dec i @ ''.csv'')"
      using m i by blast
    have c: "csv (ctx st ! i) =
           \<lparr>path = ''trace_flow'' @ dec i @ ''.csv'', is_open = True, failed = False,
            written = [Text header]\<rparr>"
      using m i by auto
    have op: "is_open (csv (ctx st ! i))" "\<not> failed (csv (ctx st ! i))"
      and w: "written (csv (ctx st ! i)) = [Text header]"
      unfolding c by simp_all
    have "\<exists>rs. written (csv (ctx ((ProcessOneEvent eng (sampleDt a) ^^ k) st) ! i)) =
        Text header # map Row rs" for k
      using steps_flow [where eng = eng and dt = "sampleDt a" and k = k, OF i op]
      unfolding w by simp
    then show "can_open eng (''trace_flow'' @ dec i @ ''.csv'') \<and>
         csv (ctx st ! i) =
           \<lparr>path = ''trace_flow'' @ dec i @ ''.csv'', is_open = True, failed = False,
            written = [Text ''time,cwnd_pkts,throughput_mbps,buffer_pkts,inflight_pkts'']\<rparr> \<and>
         (\<forall>k. \<exists>rs. written (csv (ctx ((ProcessOneEvent eng (sampleDt a) ^^ k) st) ! i)) =
                  Text ''time,cwnd_pkts,throughput_mbps,buffer_pkts,inflight_pkts'' # map Row rs)"
      using can c unfolding header_def by blast
  qed
next
  assume "pick_algo algos j = Inr al \<and>
    snd (ResolveTcpTypeId (LookupByNameFailSafe eng) al) = Inr tid \<and>
    \<not> can_open eng (''trace_flow'' @ dec j @ ''.csv'')"
  then show "setup_flow eng algos m j st0 = Inl (Fatal (''Failed to open CSV for flow '' @ dec j))"
    using setup_flow_open_fails by blast
next
  assume bad: "\<exists>i < unat (flow_count (Split (flows a) CHR '','')).
        \<not> can_open eng (''trace_flow'' @ dec i @ ''.csv'')"
  show "\<exists>e. main_setup eng a trace = Inl e"
  proof (cases "main_setup eng a trace")
    case (Inl e)
    then show ?thesis by blast
  next
    case (Inr st')
    note m = main_setup_result [OF Inr]
    have "\<forall>i < unat (flow_count (Split (flows a) CHR '','')).
        can_open eng (''trace_flow'' @ dec i @ ''.csv'')"
      using m by metis
    then show ?thesis
      using bad by blast
  qed
qed

lemma main_setup_no_files:
  "main_setup engine_no_files args_two [] = Inl (Fatal ''Failed to open CSV for flow 0'')"
  by (simp add: main_setup_def args_two_def engine_no_files_def Split_split_fields unat_flow_count
      setup_flow_def pick_algo_def ResolveTcpTypeId_def ns3Name_of_def registry_no_bbr_def
      ofstream_open_def ofstream_put_def FlowCtx_default_def ofstream_default_def Schedule_def
      Stop_def digit_char_def dec.simps Let_def upt_conv_Cons)

theorem setup_opens_one_sink_per_flow_witness:
  "main_setup engine_plain args_two [] = Inr state_after_setup \<and>
   length (ctx state_after_setup) = 2 \<and>
   csv (ctx state_after_setup ! 1) =
     \<lparr>path = ''trace_flow1.csv'', is_open = True, failed = False,
      written = [Text ''time,cwnd_pkts,throughput_mbps,buffer_pkts,inflight_pkts'']\<rparr> \<and>
   (\<exists>rs. written (csv (ctx ((ProcessOneEvent engine_plain (sampleDt args_two) ^^ 5)
             state_after_setup) ! 1)) =
          Text ''time,cwnd_pkts,throughput_mbps,buffer_pkts,inflight_pkts'' # map Row rs) \<and>
   setup_flow engine_no_files [''Reno'', ''Cubic''] 1000 0 state_after_setup =
     Inl (Fatal ''Failed to open CSV for flow 0'') \<and>
   main_setup engine_no_files args_two [] = Inl (Fatal ''Failed to open CSV for flow 0'')"
proof -
  note t = setup_opens_one_sink_per_flow [where eng = engine_plain and a = args_two and trace = "[]"
      and st = state_after_setup]
  note u = setup_opens_one_sink_per_flow [where eng = engine_no_files and algos = "[''Reno'', ''Cubic'']" and j = 0
      and al = "''Reno''" and tid = 7 and m = 1000 and ?st0.0 = state_after_setup]
  have ok: "main_setup engine_plain args_two [] = Inr state_after_setup"
    by (rule main_setup_args_two)
  have len: "length (ctx state_after_setup) = 2"
    by (simp add: state_after_setup_def)
  note a = t [THEN conjunct1, rule_format, OF ok]
  have one: "csv (ctx state_after_setup ! 1) =
     \<lparr>path = ''trace_flow'' @ dec 1 @ ''.csv'', is_open = True, failed = False,
      written = [Text ''time,cwnd_pkts,throughput_mbps,buffer_pkts,inflight_pkts'']\<rparr> \<and>
    (\<forall>k. \<exists>rs. written (csv (ctx ((ProcessOneEvent engine_plain (sampleDt args_two) ^^ k)
             state_after_setup) ! 1)) =
          Text ''time,cwnd_pkts,throughput_mbps,buffer_pkts,inflight_pkts'' # map Row rs)"
    using a [THEN conjunct2, THEN conjunct2, rule_format, of 1] len by simp
  have b: "setup_flow engine_no_files [''Reno'', ''Cubic''] 1000 0 state_after_setup =
     Inl (Fatal (''Failed to open CSV for flow '' @ dec 0))"
    by (rule u [THEN conjunct2, THEN conjunct1, rule_format])
       (simp add: pick_algo_def ResolveTcpTypeId_def ns3Name_of_def engine_no_files_def
          registry_no_bbr_def)
  have c: "main_setup engine_no_files args_two [] = Inl (Fatal ''Failed to open CSV for flow 0'')"
    by (rule main_setup_no_files)
  show ?thesis
    using ok len one b c by (simp add: dec.simps digit_char_def)
qed

subsection \<open>The run of the sampler\<close>

lemma pop_next_None_iff: "pop_next xs = None \<longleftrightarrow> xs = []"
  by (cases xs) (simp_all split: option.splits prod.splits)

lemma pop_next_Some:
  "pop_next xs = Some (y, ys) \<Longrightarrow>
   \<exists>as bs. xs = as @ y # bs \<and> ys = as @ bs \<and>
     (\<forall>a\<in>set as. fst y < fst a) \<and> (\<forall>b\<in>set bs. fst y \<le> fst b)"
proof (induction xs arbitrary: y ys)
  case Nil
  then show ?case by simp
next
  case (Cons x xs)
  show ?case
  proof (cases "pop_next xs")
    case None
    then have "xs = []"
      by (simp add: pop_next_None_iff)
    then have "y = x" and "ys = []"
      using Cons.prems by simp_all
    then show ?thesis
      using \<open>xs = []\<close> by simp
  next
    case (Some p)
    obtain y' ys' where p: "p = (y', ys')"
      by (cases p)
    from Cons.IH [OF Some [unfolded p]] obtain as bs where
      xs: "xs = as @ y' # bs" and ys': "ys' = as @ bs"
      and lt: "\<forall>a\<in>set as. fst y' < fst a" and le: "\<forall>b\<in>set bs. fst y' \<le> fst b"
      by blast
    show ?thesis
    proof (cases "fst y' < fst x")
      case True
      then have "y = y'" and "ys = x # ys'"
        using Cons.prems Some p by simp_all
      then have "x # xs = (x # as) @ y # bs \<and> ys = (x # as) @ bs \<and>
          (\<forall>a\<in>set (x # as). fst y < fst a) \<and> (\<forall>b\<in>set bs. fst y \<le> fst b)"
        using xs ys' lt le True by simp
      then show ?thesis
        by blast
    next
      case False
      then have "y = x" and "ys = xs"
        using Cons.prems Some p by simp_all
      moreover have "\<forall>b\<in>set xs. fst x \<le> fst b"
        using False lt le unfolding xs by fastforce
      ultimately have "x # xs = [] @ y # xs \<and> ys = [] @ xs \<and>
          (\<forall>a\<in>set []. fst y < fst a) \<and> (\<forall>b\<in>set xs. fst y \<le> fst b)"
        by simp
      then show ?thesis
        by blast
    qed
  qed
qed


lemma row_times_append: "row_times (xs @ ys) = row_times xs @ row_times ys"
proof (induction xs)
  case Nil
  show ?case by simp
next
  case (Cons l ls)
  then show ?case by (cases l) simp_all
qed

lemma DoSample_pending:
  "pending (DoSample S dt st) = pending st @ [(now st + S dt, DoSampleEv)]"
  by (simp add: DoSample_def Let_def fold_DoSample_flow_frame)

lemma DoSample_stopped: "stopped (DoSample S dt st) = stopped st"
  by (simp add: DoSample_def Let_def fold_DoSample_flow_frame)

text \<open>An event other than the sampler and the stop: no new event, no line written.\<close>

lemma dispatch_other:
  assumes "ev \<noteq> DoSampleEv" and "ev \<noteq> StopEv"
  shows "pending (dispatch eng dt ev st) = pending st"
    and "stopped (dispatch eng dt ev st) = stopped st"
    and "csv (ctx (dispatch eng dt ev st) ! i) = csv (ctx st ! i)"
proof -
  show "pending (dispatch eng dt ev st) = pending st"
    using assms
    by (cases ev)
       (simp_all add: dispatch_def HookSenderTraces_def CwndTrace_def InflightTrace_def
          RxTrace_def Let_def split_beta)
  show "stopped (dispatch eng dt ev st) = stopped st"
    using assms
    by (cases ev)
       (simp_all add: dispatch_def HookSenderTraces_def CwndTrace_def InflightTrace_def
          RxTrace_def Let_def split_beta)
  show "csv (ctx (dispatch eng dt ev st) ! i) = csv (ctx st ! i)"
  proof (cases ev)
    case (CwndTraceEv j oldCwnd newCwnd)
    show ?thesis
    proof (cases "j = i \<and> i < length (ctx st)")
      case True
      then show ?thesis
        by (simp add: dispatch_def CwndTraceEv CwndTrace_def)
    next
      case False
      then consider "j \<noteq> i" | "length (ctx st) \<le> j"
        by fastforce
      then show ?thesis
      proof cases
        case 1
        then show ?thesis
          by (simp add: dispatch_def CwndTraceEv CwndTrace_def)
      next
        case 2
        then show ?thesis
          by (simp add: dispatch_def CwndTraceEv CwndTrace_def list_update_beyond)
      qed
    qed
  next
    case (InflightTraceEv j oldVal newVal)
    show ?thesis
    proof (cases "j = i \<and> i < length (ctx st)")
      case True
      then show ?thesis
        by (simp add: dispatch_def InflightTraceEv InflightTrace_def)
    next
      case False
      then consider "j \<noteq> i" | "length (ctx st) \<le> j"
        by fastforce
      then show ?thesis
      proof cases
        case 1
        then show ?thesis
          by (simp add: dispatch_def InflightTraceEv InflightTrace_def)
      next
        case 2
        then show ?thesis
          by (simp add: dispatch_def InflightTraceEv InflightTrace_def list_update_beyond)
      qed
    qed
  qed (use assms in \<open>simp_all add: dispatch_def HookSenderTraces_def RxTrace_def Let_def split_beta\<close>)
qed

lemma DoSample_row_time:
  assumes "i < length (ctx st)"
    and "is_open (csv (ctx st ! i))" and "\<not> failed (csv (ctx st ! i))"
  shows "is_open (csv (ctx (DoSample S dt st) ! i)) \<and>
    \<not> failed (csv (ctx (DoSample S dt st) ! i)) \<and>
    row_times (written (csv (ctx (DoSample S dt st) ! i))) =
      row_times (written (csv (ctx st ! i))) @ [GetSeconds (now st)]"
proof -
  obtain thr where "ctx (DoSample S dt st) ! i =
     (ctx st ! i)\<lparr>csv := ofstream_put
        (Row \<lparr>time = GetSeconds (now st),
              cwnd_pkts = ddiv (lastCwndBytes (ctx st ! i)) (max 1 (mssBytes (ctx st ! i))),
              throughput_mbps = thr,
              buffer_pkts = routerPkts_of (gQdiscs st),
              inflight_pkts = ddiv (inflightBytes (ctx st ! i)) (max 1 (mssBytes (ctx st ! i)))\<rparr>)
        (csv (ctx st ! i))\<rparr>"
    using DoSample_ctx_nth [OF assms(1)] by blast
  then show ?thesis
    using assms(2,3) by (simp add: ofstream_put_def row_times_append)
qed


lemma ProcessOneEvent_length:
  "length (ctx (ProcessOneEvent eng dt st)) = length (ctx st)"
  by (simp add: ProcessOneEvent_def dispatch_length split: option.splits prod.splits)

text \<open>
  One step of the run from a state in which the sampler has fired \<open>j\<close> times: the stop
  is processed and the run is over, or another event is processed and the event list
  gets shorter, or the sampler fires for the time \<open>j + 1\<close>.
\<close>

lemma sampler_step:
  assumes inv: "sampler_inv D T j st" and D: "D = Seconds eng dtr" and pos: "0 < D"
  shows "sampler_done D T j (ProcessOneEvent eng dtr st) \<or>
    (sampler_inv D T j (ProcessOneEvent eng dtr st) \<and>
       length (pending (ProcessOneEvent eng dtr st)) < length (pending st)) \<or>
    (sampler_inv D T (Suc j) (ProcessOneEvent eng dtr st) \<and>
       length (pending (ProcessOneEvent eng dtr st)) = length (pending st) \<and> j < T)"
proof -
  let ?F = "if j = 0 then [(D, DoSampleEv), (T, StopEv)]
            else [(T, StopEv), (Suc j * D, DoSampleEv)]"
  have ns: "\<not> stopped st"
    and f: "filter special (pending st) = ?F"
    and hist: "\<forall>k. 1 \<le> k \<and> k \<le> j \<longrightarrow> k * D < T \<or> (k = 1 \<and> D = T)"
    and rows: "\<forall>i<length (ctx st).
        is_open (csv (ctx st ! i)) \<and> \<not> failed (csv (ctx st ! i)) \<and>
        row_times (written (csv (ctx st ! i))) = map (\<lambda>k. GetSeconds (k * D)) [1..<Suc j]"
    using inv unfolding sampler_inv_def by blast+
  have "pending st \<noteq> []"
    using f by (auto split: if_splits)
  then obtain p where "pop_next (pending st) = Some p"
    using pop_next_None_iff [of "pending st"] by (cases "pop_next (pending st)") auto
  then obtain t ev rest where pop: "pop_next (pending st) = Some ((t, ev), rest)"
    by (metis prod.exhaust)
  from pop_next_Some [OF pop] obtain as bs where
    pend: "pending st = as @ (t, ev) # bs" and rest: "rest = as @ bs"
    and lt: "\<forall>a\<in>set as. t < fst a" and le: "\<forall>b\<in>set bs. t \<le> fst b"
    by auto
  let ?st1 = "st\<lparr>pending := rest, now := t, executed := executed st @ [(t, ev)]\<rparr>"
  let ?st' = "ProcessOneEvent eng dtr st"
  have P: "?st' = dispatch eng dtr ev ?st1"
    by (simp add: ProcessOneEvent_def pop)
  have len: "length (ctx ?st') = length (ctx st)"
    by (rule ProcessOneEvent_length)
  show ?thesis
  proof (cases "special (t, ev)")
    case False
    then have ev: "ev \<noteq> DoSampleEv" "ev \<noteq> StopEv"
      by (simp_all add: special_def)
    have f': "filter special rest = ?F"
      using f False unfolding pend rest by simp
    have "sampler_inv D T j ?st'"
      unfolding sampler_inv_def P
      using ns f' hist rows by (simp add: dispatch_other [OF ev] dispatch_length)
    moreover have "length (pending ?st') < length (pending st)"
      unfolding P by (simp add: dispatch_other [OF ev] pend rest)
    ultimately show ?thesis
      by blast
  next
    case True
    have split: "filter special as @ (t, ev) # filter special bs = ?F"
      using f True unfolding pend by simp
    show ?thesis
    proof (cases "ev = StopEv")
      case stop: True
      have st': "?st' = ?st1\<lparr>stopped := True\<rparr>"
        unfolding P by (simp add: dispatch_def stop)
      have fin: "T < Suc j * D \<or> (T = Suc j * D \<and> 1 \<le> j)"
      proof (cases "j = 0")
        case True
        then have "filter special as = [(D, DoSampleEv)]" and "t = T"
          using split stop by (auto simp: append_eq_Cons_conv)
        then have "(D, DoSampleEv) \<in> set (filter special as)"
          by simp
        then have "(D, DoSampleEv) \<in> set as"
          by simp
        then show ?thesis
          using lt \<open>t = T\<close> True by fastforce
      next
        case False
        then have "filter special bs = [(Suc j * D, DoSampleEv)]" and "t = T"
          using split stop by (auto simp: append_eq_Cons_conv)
        then have "(Suc j * D, DoSampleEv) \<in> set (filter special bs)"
          by simp
        then have "(Suc j * D, DoSampleEv) \<in> set bs"
          by simp
        then have "T \<le> Suc j * D"
          using le \<open>t = T\<close> by fastforce
        then show ?thesis
          using False by linarith
      qed
      have "sampler_done D T j ?st'"
        unfolding sampler_done_def st' using hist fin rows by simp
      then show ?thesis
        by blast
    next
      case False
      then have ev: "ev = DoSampleEv"
        using True by (simp add: special_def)
      have st': "?st' = DoSample (Seconds eng) dtr ?st1"
        unfolding P by (simp add: dispatch_def ev)
      have fire: "t = Suc j * D \<and> filter special rest = [(T, StopEv)] \<and>
          (Suc j * D < T \<or> (j = 0 \<and> D = T))"
      proof (cases "j = 0")
        case True
        then have a: "filter special as = []" and t: "t = D"
          and b: "filter special bs = [(T, StopEv)]"
          using split ev by (auto simp: append_eq_Cons_conv)
        have "(T, StopEv) \<in> set (filter special bs)"
          using b by simp
        then have "(T, StopEv) \<in> set bs"
          by simp
        then have "D \<le> T"
          using le t by fastforce
        then show ?thesis
          using a b t True unfolding rest by auto
      next
        case False
        then have a: "filter special as = [(T, StopEv)]" and t: "t = Suc j * D"
          and b: "filter special bs = []"
          using split ev by (auto simp: append_eq_Cons_conv)
        have "(T, StopEv) \<in> set (filter special as)"
          using a by simp
        then have "(T, StopEv) \<in> set as"
          by simp
        then have "Suc j * D < T"
          using lt t by fastforce
        then show ?thesis
          using a b t unfolding rest by auto
      qed
      have pend': "pending ?st' = rest @ [(Suc (Suc j) * D, DoSampleEv)]"
        unfolding st' using fire by (simp add: DoSample_pending D)
      have f': "filter special (pending ?st') = [(T, StopEv), (Suc (Suc j) * D, DoSampleEv)]"
        unfolding pend' using fire by (simp add: special_def)
      have hist': "\<forall>k. 1 \<le> k \<and> k \<le> Suc j \<longrightarrow> k * D < T \<or> (k = 1 \<and> D = T)"
      proof (intro allI impI)
        fix k
        assume k: "1 \<le> k \<and> k \<le> Suc j"
        show "k * D < T \<or> (k = 1 \<and> D = T)"
        proof (cases "k = Suc j")
          case True
          then show ?thesis
            using fire by auto
        next
          case False
          then have "1 \<le> k \<and> k \<le> j"
            using k by simp
          then show ?thesis
            using hist by blast
        qed
      qed
      have rows': "\<forall>i<length (ctx ?st').
        is_open (csv (ctx ?st' ! i)) \<and> \<not> failed (csv (ctx ?st' ! i)) \<and>
        row_times (written (csv (ctx ?st' ! i))) = map (\<lambda>k. GetSeconds (k * D)) [1..<Suc (Suc j)]"
      proof (intro allI impI)
        fix i
        assume "i < length (ctx ?st')"
        then have i: "i < length (ctx ?st1)"
          using len by simp
        have op: "is_open (csv (ctx ?st1 ! i))" "\<not> failed (csv (ctx ?st1 ! i))"
          and r: "row_times (written (csv (ctx ?st1 ! i))) = map (\<lambda>k. GetSeconds (k * D)) [1..<Suc j]"
          using rows i by simp_all
        note d = DoSample_row_time [OF i op, of "Seconds eng" dtr]
        have "now ?st1 = Suc j * D"
          using fire by simp
        then show "is_open (csv (ctx ?st' ! i)) \<and> \<not> failed (csv (ctx ?st' ! i)) \<and>
            row_times (written (csv (ctx ?st' ! i))) = map (\<lambda>k. GetSeconds (k * D)) [1..<Suc (Suc j)]"
          unfolding st' using d r by simp
      qed
      have ns': "\<not> stopped ?st'"
        unfolding st' using ns by (simp add: DoSample_stopped)
      have "sampler_inv D T (Suc j) ?st'"
        unfolding sampler_inv_def using ns' f' hist' rows' by simp
      moreover have "length (pending ?st') = length (pending st)"
        unfolding pend' by (simp add: pend rest)
      moreover have "j < T"
      proof -
        have "Suc j * 1 \<le> Suc j * D"
          using pos by (intro mult_le_mono2) simp
        then have "Suc j \<le> Suc j * D"
          by simp
        moreover have "Suc j * D \<le> T"
          using fire by auto
        ultimately show ?thesis
          by linarith
      qed
      ultimately show ?thesis
        by blast
    qed
  qed
qed


lemma Run_stopped: "stopped st \<Longrightarrow> Run n eng dtr st = Some st"
  by (cases n) simp_all

lemma sampler_run:
  assumes D: "D = Seconds eng dtr" and pos: "0 < D"
  shows "sampler_inv D T j st \<Longrightarrow> length (pending st) + (T - j) < n \<Longrightarrow>
    \<exists>st' m. Run n eng dtr st = Some st' \<and> sampler_done D T m st' \<and>
       length (ctx st') = length (ctx st)"
proof (induction n arbitrary: st j)
  case 0
  then show ?case by simp
next
  case (Suc n)
  let ?st' = "ProcessOneEvent eng dtr st"
  have "\<not> stopped st" and "pending st \<noteq> []"
    using Suc.prems(1) unfolding sampler_inv_def by (auto split: if_splits)
  then have run: "Run (Suc n) eng dtr st = Run n eng dtr ?st'"
    by simp
  have len: "length (ctx ?st') = length (ctx st)"
    by (rule ProcessOneEvent_length)
  from sampler_step [OF Suc.prems(1) D pos]
  consider (stop) "sampler_done D T j ?st'"
    | (other) "sampler_inv D T j ?st'" "length (pending ?st') < length (pending st)"
    | (fire) "sampler_inv D T (Suc j) ?st'" "length (pending ?st') = length (pending st)" "j < T"
    by blast
  then show ?case
  proof cases
    case stop
    then have "stopped ?st'"
      by (simp add: sampler_done_def)
    then have "Run n eng dtr ?st' = Some ?st'"
      by (rule Run_stopped)
    then show ?thesis
      using run stop len by auto
  next
    case other
    have "length (pending ?st') + (T - j) < n"
      using other(2) Suc.prems(2) by linarith
    from Suc.IH [OF other(1) this] show ?thesis
      using run len by auto
  next
    case fire
    have "length (pending ?st') + (T - Suc j) < n"
      using fire(2,3) Suc.prems(2) by linarith
    from Suc.IH [OF fire(1) this] show ?thesis
      using run len by auto
  qed
qed

lemma firings_closed_form:
  assumes pos: "0 < (D :: nat)"
    and hist: "\<forall>k. 1 \<le> k \<and> k \<le> m \<longrightarrow> k * D < T \<or> (k = 1 \<and> D = T)"
    and fin: "T < Suc m * D \<or> (T = Suc m * D \<and> 1 \<le> m)"
  shows "m = (if D = T then 1 else (T - 1) div D)"
proof (cases "D = T")
  case True
  have "m \<noteq> 0"
    using fin True by auto
  moreover have "m < 2"
  proof (rule ccontr)
    assume "\<not> m < 2"
    then have "1 \<le> (2 :: nat) \<and> 2 \<le> m"
      by simp
    then have "2 * D < T \<or> ((2 :: nat) = 1 \<and> D = T)"
      using hist by blast
    then show False
      using True by simp
  qed
  ultimately show ?thesis
    using True by simp
next
  case False
  have lo: "D * m \<le> T - 1"
  proof (cases "m = 0")
    case True
    then show ?thesis by simp
  next
    case m: False
    then have "1 \<le> m \<and> m \<le> m"
      by simp
    then have "m * D < T \<or> (m = 1 \<and> D = T)"
      using hist by blast
    then have "m * D < T"
      using False by simp
    then show ?thesis
      by (simp add: mult.commute)
  qed
  have "T \<le> Suc m * D"
    using fin by auto
  moreover have "0 < Suc m * D"
    using pos by simp
  ultimately have hi: "T - 1 < D * Suc m"
    by (simp add: mult.commute) linarith
  have "(T - 1) div D = m"
    using lo hi by (rule div_nat_eqI)
  then show ?thesis
    using False by simp
qed

lemma close_all_written:
  "i < length (ctx st) \<Longrightarrow> written (csv (ctx (close_all st) ! i)) = written (csv (ctx st ! i))"
  by (simp add: close_all_def ofstream_close_def)

lemma close_all_length: "length (ctx (close_all st)) = length (ctx st)"
  by (simp add: close_all_def)

lemma sorted_multiples:
  assumes "0 < (D :: nat)"
  shows "sorted_wrt (<) (map (\<lambda>k. GetSeconds (k * D)) [1..<Suc m])"
proof -
  have "sorted_wrt (<) [1..<Suc m]"
    by (rule sorted_wrt_upt)
  then have "sorted_wrt (\<lambda>x y. GetSeconds (x * D) < GetSeconds (y * D)) [1..<Suc m]"
    by (rule sorted_wrt_mono_rel [rotated]) (use assms in \<open>simp add: GetSeconds_def\<close>)
  then show ?thesis
    by (simp add: sorted_wrt_map)
qed

lemma ndigits_pos: "0 < ndigits n"
  by (subst ndigits.simps) simp

lemma ndigits_upper: "n < 10 ^ ndigits n"
proof (induction n rule: ndigits.induct)
  case (1 n)
  show ?case
  proof (cases "n < 10")
    case True then show ?thesis by (subst ndigits.simps) simp
  next
    case False
    then have "n div 10 < 10 ^ ndigits (n div 10)" using 1 by simp
    then have "n < 10 * 10 ^ ndigits (n div 10)" by simp
    then show ?thesis using False by (subst ndigits.simps) simp
  qed
qed

lemma ndigits_lower: "0 < n \<Longrightarrow> 10 ^ (ndigits n - 1) \<le> n"
proof (induction n rule: ndigits.induct)
  case (1 n)
  show ?case
  proof (cases "n < 10")
    case True then show ?thesis using 1(2) by (subst ndigits.simps) simp
  next
    case False
    then have "0 < n div 10" by simp
    then have "10 ^ (ndigits (n div 10) - 1) \<le> n div 10" using 1(1) False by simp
    then have "10 * 10 ^ (ndigits (n div 10) - 1) \<le> n" by simp
    moreover have "ndigits n = Suc (ndigits (n div 10))" using False by (subst ndigits.simps) simp
    moreover have "Suc (ndigits (n div 10) - 1) = ndigits (n div 10)"
      using ndigits_pos [of "n div 10"] by simp
    ultimately show ?thesis by (metis diff_Suc_1 power_Suc)
  qed
qed

lemma ndigits_mono: "a \<le> b \<Longrightarrow> ndigits a \<le> ndigits b"
proof (rule ccontr)
  assume ab: "a \<le> b" and "\<not> ndigits a \<le> ndigits b"
  then have lt: "ndigits b \<le> ndigits a - 1" by simp
  have "0 < a" using lt ndigits_pos [of b] by (cases "a = 0") (auto simp: ndigits.simps [of 0])
  then have "10 ^ (ndigits a - 1) \<le> a" by (rule ndigits_lower)
  moreover have "(10::nat) ^ ndigits b \<le> 10 ^ (ndigits a - 1)"
    using lt by (intro power_increasing) simp_all
  moreover have "b < 10 ^ ndigits b" by (rule ndigits_upper)
  ultimately show False using ab by linarith
qed

lemma round_to_mono: "a \<le> b \<Longrightarrow> ((a + s div 2) div s) * s \<le> ((b + s div 2) div s) * (s::nat)"
  by (intro mult_right_mono div_le_mono) simp_all

lemma round6_le_pow: 
  assumes "6 < ndigits a"
  shows "round6 a \<le> 10 ^ ndigits a"
proof -
  define s :: nat where "s = 10 ^ (ndigits a - 6)"
  have spos: "0 < s" by (simp add: s_def)
  have "ndigits a = 6 + (ndigits a - 6)" using assms by simp
  then have "(10::nat) ^ ndigits a = 10 ^ (6 + (ndigits a - 6))" by (rule arg_cong)
  then have p: "10 ^ ndigits a = 10 ^ 6 * s" unfolding s_def power_add .
  have "a < 10 ^ 6 * s" using ndigits_upper [of a] p by simp
  moreover have "s div 2 < s" using spos by simp
  ultimately have "a + s div 2 < (10 ^ 6 + 1) * s" by (simp add: algebra_simps)
  then have "(a + s div 2) div s < 10 ^ 6 + 1"
    using spos by (simp add: less_mult_imp_div_less)
  then have "(a + s div 2) div s \<le> 10 ^ 6" by simp
  then have "((a + s div 2) div s) * s \<le> 10 ^ 6 * s" by (rule mult_right_mono) simp
  then show ?thesis using assms p by (simp add: round6_def Let_def s_def)
qed

lemma round6_ge_pow:
  assumes "6 < ndigits b"
  shows "10 ^ (ndigits b - 1) \<le> round6 b"
proof -
  define s :: nat where "s = 10 ^ (ndigits b - 6)"
  have spos: "0 < s" by (simp add: s_def)
  have "ndigits b - 1 = 5 + (ndigits b - 6)" using assms by simp
  then have "(10::nat) ^ (ndigits b - 1) = 10 ^ (5 + (ndigits b - 6))" by (rule arg_cong)
  then have p: "10 ^ (ndigits b - 1) = 10 ^ 5 * s" unfolding s_def power_add .
  have "0 < b" using assms by (cases "b = 0") (auto simp: ndigits.simps [of 0])
  then have "10 ^ 5 * s \<le> b" using ndigits_lower [of b] p by simp
  then have "10 ^ 5 * s \<le> b + s div 2" by simp
  then have "10 ^ 5 \<le> (b + s div 2) div s"
    using spos by (simp add: less_eq_div_iff_mult_less_eq)
  then have "10 ^ 5 * s \<le> ((b + s div 2) div s) * s" by (rule mult_right_mono) simp
  then show ?thesis using assms p by (simp add: round6_def Let_def s_def)
qed

lemma round6_mono:
  assumes "a \<le> b"
  shows "round6 a \<le> round6 b"
proof -
  have nm: "ndigits a \<le> ndigits b" using assms by (rule ndigits_mono)
  consider (small) "ndigits b \<le> 6"
    | (mixed) "ndigits a \<le> 6" "6 < ndigits b"
    | (same) "6 < ndigits a" "ndigits a = ndigits b"
    | (diff) "6 < ndigits a" "ndigits a < ndigits b"
    using nm by linarith
  then show ?thesis
  proof cases
    case small
    then show ?thesis using nm assms by (simp add: round6_def)
  next
    case mixed
    have "a < 10 ^ ndigits a" by (rule ndigits_upper)
    also have "(10::nat) ^ ndigits a \<le> 10 ^ (ndigits b - 1)"
      using mixed by (intro power_increasing) simp_all
    also have "\<dots> \<le> round6 b" using mixed(2) by (rule round6_ge_pow)
    finally show ?thesis using mixed(1) by (simp add: round6_def)
  next
    case same
    have "((a + 10 ^ (ndigits b - 6) div 2) div 10 ^ (ndigits b - 6)) * 10 ^ (ndigits b - 6)
          \<le> ((b + 10 ^ (ndigits b - 6) div 2) div 10 ^ (ndigits b - 6)) * 10 ^ (ndigits b - 6)"
      using assms by (rule round_to_mono)
    then show ?thesis using same by (simp add: round6_def Let_def)
  next
    case diff
    have "round6 a \<le> 10 ^ ndigits a" using diff(1) by (rule round6_le_pow)
    also have "(10::nat) ^ ndigits a \<le> 10 ^ (ndigits b - 1)"
      using diff by (intro power_increasing) simp_all
    also have "\<dots> \<le> round6 b" using diff by (intro round6_ge_pow) simp
    finally show ?thesis .
  qed
qed

lemma shown_seconds_GetSeconds: "shown_seconds (GetSeconds t) = real (round6 t) / 1000000000"
  by (simp add: shown_seconds_def GetSeconds_def)

lemma shown_seconds_mono: "a \<le> b \<Longrightarrow> shown_seconds (GetSeconds a) \<le> shown_seconds (GetSeconds b)"
  by (simp add: shown_seconds_GetSeconds round6_mono divide_right_mono)

lemma GetSeconds_less: "a < b \<Longrightarrow> GetSeconds a < GetSeconds b"
  by (simp add: GetSeconds_def)


lemma sorted_written_multiples:
  "sorted_wrt (\<le>) (map shown_seconds (map (\<lambda>k. GetSeconds (k * D)) [1..<Suc m]))"
proof -
  have "sorted_wrt (<) [1..<Suc m]"
    by (rule sorted_wrt_upt)
  then have "sorted_wrt (\<lambda>x y. shown_seconds (GetSeconds (x * D)) \<le> shown_seconds (GetSeconds (y * D)))
      [1..<Suc m]"
    by (rule sorted_wrt_mono_rel [rotated]) (simp add: shown_seconds_mono)
  then show ?thesis
    by (simp add: sorted_wrt_map)
qed

lemma main_setup_sampler_inv:
  assumes ok: "main_setup eng a trace = Inr st"
    and tr: "\<forall>e\<in>set trace. snd e \<noteq> DoSampleEv \<and> snd e \<noteq> StopEv"
  shows "sampler_inv (Seconds eng (sampleDt a)) (Seconds eng (real (unat (duration a)))) 0 st"
proof -
  note m = main_setup_result [OF ok]
  have p: "pending st =
      map (\<lambda>i. (Seconds eng (11 / 100), HookSenderTracesEv i)) [0..<length (ctx st)] @
      [(Seconds eng (sampleDt a), DoSampleEv),
       (Seconds eng (real (unat (duration a))), StopEv)] @ trace"
    using m by blast
  have h: "filter special
      (map (\<lambda>i. (Seconds eng (11 / 100), HookSenderTracesEv i)) [0..<length (ctx st)]) = []"
    by (simp add: special_def)
  have t: "filter special trace = []"
    using tr by (simp add: special_def)
  have f: "filter special (pending st) =
      [(Seconds eng (sampleDt a), DoSampleEv), (Seconds eng (real (unat (duration a))), StopEv)]"
    unfolding p by (simp add: h t) (simp add: special_def)
  have rows: "\<forall>i<length (ctx st).
        is_open (csv (ctx st ! i)) \<and> \<not> failed (csv (ctx st ! i)) \<and>
        row_times (written (csv (ctx st ! i))) = map (\<lambda>k. GetSeconds (k * Seconds eng (sampleDt a))) [1..<Suc 0]"
    using m by auto
  have "\<not> stopped st"
    using m by blast
  then show ?thesis
    unfolding sampler_inv_def using f rows by simp
qed


text \<open>
  The run of \<open>main\<close> with a period of at least one tick: with the fuel below the run
  ends, and every flow's file holds one data row per firing, for the instants
  \<open>\<Delta>t, 2\<Delta>t, ..., m\<Delta>t\<close>.
\<close>

lemma main_rows:
  assumes "main_setup eng a trace = Inr st"
    and "D = Seconds eng (sampleDt a)" and "T = Seconds eng (real (unat (duration a)))"
    and "0 < D"
    and "\<forall>e\<in>set trace. snd e \<noteq> DoSampleEv \<and> snd e \<noteq> StopEv"
  shows "\<exists>st'. main eng a trace (Suc (length (pending st) + T)) = Some (Inr st') \<and>
      length (ctx st') = length (ctx st) \<and>
      (\<forall>i<length (ctx st').
         row_times (written (csv (ctx st' ! i))) =
           map (\<lambda>k. GetSeconds (k * D)) [1..<Suc (if D = T then 1 else (T - 1) div D)])"
proof -
  have inv: "sampler_inv D T 0 st"
    unfolding assms(2,3) using assms(1,5) by (rule main_setup_sampler_inv)
  let ?n = "Suc (length (pending st) + T)"
  have "length (pending st) + (T - 0) < ?n"
    by simp
  from sampler_run [OF assms(2,4) inv this] obtain st1 m where
    run: "Run ?n eng (sampleDt a) st = Some st1" and fin: "sampler_done D T m st1"
    and len: "length (ctx st1) = length (ctx st)"
    by blast
  have hist: "\<forall>k. 1 \<le> k \<and> k \<le> m \<longrightarrow> k * D < T \<or> (k = 1 \<and> D = T)"
    and last: "T < Suc m * D \<or> (T = Suc m * D \<and> 1 \<le> m)"
    and rows: "\<forall>i<length (ctx st1).
        row_times (written (csv (ctx st1 ! i))) = map (\<lambda>k. GetSeconds (k * D)) [1..<Suc m]"
    using fin unfolding sampler_done_def by blast+
  have m: "m = (if D = T then 1 else (T - 1) div D)"
    using assms(4) hist last by (rule firings_closed_form)
  have mn: "main eng a trace ?n = Some (Inr (close_all st1))"
    by (simp add: main_def assms(1) run del: Run.simps)
  have "row_times (written (csv (ctx (close_all st1) ! i))) =
      map (\<lambda>k. GetSeconds (k * D)) [1..<Suc (if D = T then 1 else (T - 1) div D)]"
    if "i < length (ctx (close_all st1))" for i
  proof -
    have "i < length (ctx st1)"
      using that by (simp add: close_all_length)
    then show ?thesis
      using rows by (simp add: close_all_written flip: m)
  qed
  moreover have "length (ctx (close_all st1)) = length (ctx st)"
    using len by (simp add: close_all_length)
  ultimately show ?thesis
    using mn by blast
qed

lemma multiples_before_stop:
  assumes "0 < (D :: nat)" and "m = (if D = T then 1 else (T - 1) div D)"
    and "1 \<le> k" and "k \<le> m"
  shows "k * D < T \<or> (k = 1 \<and> D = T)"
proof (cases "D = T")
  case True
  then show ?thesis
    using assms(2,3,4) by simp
next
  case False
  then have "k \<le> (T - 1) div D"
    using assms(2,4) by simp
  then have "k * D \<le> (T - 1) div D * D"
    by (rule mult_le_mono1)
  also have "\<dots> \<le> T - 1"
    by simp
  finally have "k * D \<le> T - 1" .
  moreover have "0 < k * D"
    using assms(1,3) by simp
  ultimately show ?thesis
    by linarith
qed

text \<open>
  Claim C6, amended: when the period is at least one tick, the run ends, and in every
  flow's file the data rows are those of the firings at the instants
  \<open>\<Delta>t, 2\<Delta>t, ..., m\<Delta>t\<close>, in that order: the first firing is at \<open>\<Delta>t\<close>, each firing is one
  period after the one before, and the instants are strictly increasing. The time value
  that stands in a row is the instant in seconds at six significant digits, so the
  written time values of successive rows are non-decreasing (two firings whose instants
  agree in their six leading digits are written with the same time), and none is above
  the stop time as it would be written. \<open>m\<close> is the number of multiples of \<open>\<Delta>t\<close> below
  the stop time, so no row is written for an instant past the stop time, and none for
  the stop time itself, except when \<open>\<Delta>t\<close> equals the stop time: then the first firing,
  enqueued before the stop, is processed first and writes the one row of the run.
\<close>

theorem sampler_period_and_stop:
  assumes "main_setup eng a trace = Inr st"
    and "D = Seconds eng (sampleDt a)" and "T = Seconds eng (real (unat (duration a)))"
    and "0 < D"
    and "\<forall>e\<in>set trace. snd e \<noteq> DoSampleEv \<and> snd e \<noteq> StopEv"
  shows "\<exists>st' m. main eng a trace (Suc (length (pending st) + T)) = Some (Inr st') \<and>
      length (ctx st') = length (ctx st) \<and>
      m = (if D = T then 1 else (T - 1) div D) \<and>
      (\<forall>i<length (ctx st').
         row_times (written (csv (ctx st' ! i))) = map (\<lambda>k. GetSeconds (k * D)) [1..<Suc m] \<and>
         sorted_wrt (<) (row_times (written (csv (ctx st' ! i)))) \<and>
         sorted_wrt (\<le>) (written_times (written (csv (ctx st' ! i)))) \<and>
         (\<forall>t\<in>set (written_times (written (csv (ctx st' ! i)))).
            t \<le> shown_seconds (GetSeconds T)) \<and>
         (\<forall>t\<in>set (row_times (written (csv (ctx st' ! i)))).
            t < GetSeconds T \<or> (t = GetSeconds T \<and> D = T)))"
proof -
  define m where "m = (if D = T then 1 else (T - 1) div D)"
  obtain st' where mn: "main eng a trace (Suc (length (pending st) + T)) = Some (Inr st')"
    and len: "length (ctx st') = length (ctx st)"
    and rows: "\<forall>i<length (ctx st').
         row_times (written (csv (ctx st' ! i))) = map (\<lambda>k. GetSeconds (k * D)) [1..<Suc m]"
    using main_rows [OF assms] unfolding m_def by blast
  have bound: "k * D < T \<or> (k = 1 \<and> D = T)" if "k \<in> set [1..<Suc m]" for k
  proof -
    have "1 \<le> k" and "k \<le> m"
      using that by auto
    with assms(4) m_def show ?thesis
      by (rule multiples_before_stop)
  qed
  have le: "k * D \<le> T" if "k \<in> set [1..<Suc m]" for k
    using bound [OF that] by auto
  have each: "row_times (written (csv (ctx st' ! i))) = map (\<lambda>k. GetSeconds (k * D)) [1..<Suc m] \<and>
         sorted_wrt (<) (row_times (written (csv (ctx st' ! i)))) \<and>
         sorted_wrt (\<le>) (written_times (written (csv (ctx st' ! i)))) \<and>
         (\<forall>t\<in>set (written_times (written (csv (ctx st' ! i)))).
            t \<le> shown_seconds (GetSeconds T)) \<and>
         (\<forall>t\<in>set (row_times (written (csv (ctx st' ! i)))).
            t < GetSeconds T \<or> (t = GetSeconds T \<and> D = T))"
    if "i < length (ctx st')" for i
  proof -
    have r: "row_times (written (csv (ctx st' ! i))) = map (\<lambda>k. GetSeconds (k * D)) [1..<Suc m]"
      using rows that by blast
    have s: "sorted_wrt (<) (map (\<lambda>k. GetSeconds (k * D)) [1..<Suc m])"
      using assms(4) by (rule sorted_multiples)
    have w: "sorted_wrt (\<le>) (map shown_seconds (map (\<lambda>k. GetSeconds (k * D)) [1..<Suc m]))"
      by (rule sorted_written_multiples)
    have u: "\<forall>t\<in>set (map shown_seconds (map (\<lambda>k. GetSeconds (k * D)) [1..<Suc m])).
        t \<le> shown_seconds (GetSeconds T)"
    proof
      fix t
      assume "t \<in> set (map shown_seconds (map (\<lambda>k. GetSeconds (k * D)) [1..<Suc m]))"
      then obtain k where k: "k \<in> set [1..<Suc m]" and t: "t = shown_seconds (GetSeconds (k * D))"
        by auto
      show "t \<le> shown_seconds (GetSeconds T)"
        unfolding t using le [OF k] by (rule shown_seconds_mono)
    qed
    have b: "\<forall>t\<in>set (map (\<lambda>k. GetSeconds (k * D)) [1..<Suc m]).
        t < GetSeconds T \<or> (t = GetSeconds T \<and> D = T)"
    proof
      fix t
      assume "t \<in> set (map (\<lambda>k. GetSeconds (k * D)) [1..<Suc m])"
      then obtain k where k: "k \<in> set [1..<Suc m]" and t: "t = GetSeconds (k * D)"
        by auto
      from bound [OF k] show "t < GetSeconds T \<or> (t = GetSeconds T \<and> D = T)"
      proof
        assume "k * D < T"
        then show ?thesis
          unfolding t by (simp add: GetSeconds_less)
      next
        assume "k = 1 \<and> D = T"
        then show ?thesis
          unfolding t by simp
      qed
    qed
    show ?thesis
      unfolding written_times_def r using s w u b by blast
  qed
  show ?thesis
    using mn len m_def each by blast
qed

theorem sampler_period_and_stop_witness:
  "\<exists>st'. main engine_plain args_half_second trace_one_packet 2000000005 = Some (Inr st') \<and>
     row_times (written (csv (ctx st' ! 0))) = [1 / 2, 1, 3 / 2] \<and>
     sorted_wrt (<) (row_times (written (csv (ctx st' ! 0)))) \<and>
     sorted_wrt (\<le>) (written_times (written (csv (ctx st' ! 0))))"
proof -
  obtain st where ok: "main_setup engine_plain args_half_second trace_one_packet = Inr st"
    by (simp add: main_setup_def args_half_second_def engine_plain_def Split_split_fields
        unat_flow_count setup_flow_def pick_algo_def ResolveTcpTypeId_def ns3Name_of_def
        registry_no_bbr_def ofstream_open_def ofstream_put_def FlowCtx_default_def
        ofstream_default_def Schedule_def Stop_def digit_char_def dec.simps Let_def upt_conv_Cons)
  note r = main_setup_result [OF ok]
  have len: "length (ctx st) = 1"
    using r by (simp add: args_half_second_def Split_split_fields unat_flow_count)
  have pl: "length (pending st) = 4"
    using r len by (simp add: trace_one_packet_def)
  have D: "500000000 = Seconds engine_plain (sampleDt args_half_second)"
    and T: "2000000000 = Seconds engine_plain (real (unat (duration args_half_second)))"
    by (simp_all add: engine_plain_def args_half_second_def)
  have tr: "\<forall>e\<in>set trace_one_packet. snd e \<noteq> DoSampleEv \<and> snd e \<noteq> StopEv"
    by (simp add: trace_one_packet_def)
  have pos: "0 < (500000000 :: nat)"
    by simp
  from sampler_period_and_stop [OF ok D T pos tr]
  obtain st' m where
    mn: "main engine_plain args_half_second trace_one_packet (Suc (length (pending st) + 2000000000))
        = Some (Inr st')"
    and len': "length (ctx st') = length (ctx st)"
    and m: "m = (if (500000000 :: nat) = 2000000000 then 1 else (2000000000 - 1) div 500000000)"
    and rows: "\<forall>i<length (ctx st').
         row_times (written (csv (ctx st' ! i))) =
           map (\<lambda>k. GetSeconds (k * 500000000)) [1..<Suc m] \<and>
         sorted_wrt (<) (row_times (written (csv (ctx st' ! i)))) \<and>
         sorted_wrt (\<le>) (written_times (written (csv (ctx st' ! i))))"
    by blast
  have "m = 3"
    using m by simp
  then have "map (\<lambda>k. GetSeconds (k * 500000000)) [1..<Suc m] = [1 / 2, 1, 3 / 2]"
    by (simp add: upt_conv_Cons GetSeconds_def)
  then have "row_times (written (csv (ctx st' ! 0))) = [1 / 2, 1, 3 / 2] \<and>
     sorted_wrt (<) (row_times (written (csv (ctx st' ! 0)))) \<and>
     sorted_wrt (\<le>) (written_times (written (csv (ctx st' ! 0))))"
    using rows len len' by simp
  moreover have "Suc (length (pending st) + 2000000000) = 2000000005"
    unfolding pl by simp
  ultimately show ?thesis
    using mn by auto
qed

lemma round6_collapse:
  "round6 1000001000000 = 1000000000000" "round6 1000002000000 = 1000000000000"
proof -
  have "ndigits 1000001000000 = 13" "ndigits 1000002000000 = 13"
    by (simp_all add: ndigits.simps)
  then show "round6 1000001000000 = 1000000000000" "round6 1000002000000 = 1000000000000"
    by (simp_all add: round6_def Let_def)
qed

lemma main_period_is_duration:
  "\<exists>st'. main engine_plain args_period_is_duration [] 2000000004 = Some (Inr st') \<and>
     row_times (written (csv (ctx st' ! 0))) = [2]"
proof -
  obtain st where ok: "main_setup engine_plain args_period_is_duration [] = Inr st"
    by (simp add: main_setup_def args_period_is_duration_def engine_plain_def Split_split_fields
        unat_flow_count setup_flow_def pick_algo_def ResolveTcpTypeId_def ns3Name_of_def
        registry_no_bbr_def ofstream_open_def ofstream_put_def FlowCtx_default_def
        ofstream_default_def Schedule_def Stop_def digit_char_def dec.simps Let_def upt_conv_Cons)
  note r = main_setup_result [OF ok]
  have len: "length (ctx st) = 1"
    using r by (simp add: args_period_is_duration_def Split_split_fields unat_flow_count)
  have pl: "length (pending st) = 3"
    using r len by simp
  have D: "2000000000 = Seconds engine_plain (sampleDt args_period_is_duration)"
    and T: "2000000000 = Seconds engine_plain (real (unat (duration args_period_is_duration)))"
    by (simp_all add: engine_plain_def args_period_is_duration_def)
  have tr: "\<forall>e\<in>set []. snd e \<noteq> DoSampleEv \<and> snd e \<noteq> StopEv"
    by simp
  have pos: "0 < (2000000000 :: nat)"
    by simp
  from main_rows [OF ok D T pos tr]
  obtain st' where
    mn: "main engine_plain args_period_is_duration [] (Suc (length (pending st) + 2000000000))
        = Some (Inr st')"
    and len': "length (ctx st') = length (ctx st)"
    and rows: "\<forall>i<length (ctx st').
         row_times (written (csv (ctx st' ! i))) =
           map (\<lambda>k. GetSeconds (k * 2000000000)) [1..<Suc 1]"
    by auto
  have "map (\<lambda>k. GetSeconds (k * 2000000000)) [1..<Suc 1] = [2]"
    by (simp add: GetSeconds_def)
  then have "row_times (written (csv (ctx st' ! 0))) = [2]"
    using rows len len' by simp
  moreover have "Suc (length (pending st) + 2000000000) = 2000000004"
    unfolding pl by simp
  ultimately show ?thesis
    using mn by auto
qed

lemma main_millisecond:
  "\<exists>st'. main engine_plain args_millisecond [] 1001000000004 = Some (Inr st') \<and>
     row_times (written (csv (ctx st' ! 0))) ! 1000000 = 1000001 / 1000 \<and>
     row_times (written (csv (ctx st' ! 0))) ! 1000001 = 1000002 / 1000 \<and>
     written_times (written (csv (ctx st' ! 0))) ! 1000000 = 1000 \<and>
     written_times (written (csv (ctx st' ! 0))) ! 1000001 = 1000"
proof -
  obtain st where ok: "main_setup engine_plain args_millisecond [] = Inr st"
    by (simp add: main_setup_def args_millisecond_def engine_plain_def Split_split_fields
        unat_flow_count setup_flow_def pick_algo_def ResolveTcpTypeId_def ns3Name_of_def
        registry_no_bbr_def ofstream_open_def ofstream_put_def FlowCtx_default_def
        ofstream_default_def Schedule_def Stop_def digit_char_def dec.simps Let_def upt_conv_Cons)
  note r = main_setup_result [OF ok]
  have len: "length (ctx st) = 1"
    using r by (simp add: args_millisecond_def Split_split_fields unat_flow_count)
  have pl: "length (pending st) = 3"
    using r len by simp
  have D: "1000000 = Seconds engine_plain (sampleDt args_millisecond)"
    and T: "1001000000000 = Seconds engine_plain (real (unat (duration args_millisecond)))"
    by (simp_all add: engine_plain_def args_millisecond_def)
  have tr: "\<forall>e\<in>set []. snd e \<noteq> DoSampleEv \<and> snd e \<noteq> StopEv"
    by simp
  have pos: "0 < (1000000 :: nat)"
    by simp
  have m: "(if (1000000 :: nat) = 1001000000000 then 1 else (1001000000000 - 1) div 1000000)
      = (1000999 :: nat)"
    by simp
  from main_rows [OF ok D T pos tr]
  obtain st' where
    mn: "main engine_plain args_millisecond [] (Suc (length (pending st) + 1001000000000))
        = Some (Inr st')"
    and len': "length (ctx st') = length (ctx st)"
    and rows: "\<forall>i<length (ctx st').
         row_times (written (csv (ctx st' ! i))) =
           map (\<lambda>k. GetSeconds (k * 1000000)) [1..<Suc 1000999]"
    unfolding m by auto
  have rt: "row_times (written (csv (ctx st' ! 0))) =
      map (\<lambda>k. GetSeconds (k * 1000000)) [1..<Suc 1000999]"
    using rows len len' by simp
  have n: "map (\<lambda>k. GetSeconds (k * 1000000)) [1..<Suc 1000999] ! j =
      GetSeconds (Suc j * 1000000)" if "j < 1000999" for j
    using that by (simp add: nth_map nth_upt del: upt_Suc)
  have a: "GetSeconds (Suc 1000000 * 1000000) = 1000001 / 1000"
    and b: "GetSeconds (Suc 1000001 * 1000000) = 1000002 / 1000"
    by (simp_all add: GetSeconds_def)
  have sa: "shown_seconds (GetSeconds (Suc 1000000 * 1000000)) = 1000"
    and sb: "shown_seconds (GetSeconds (Suc 1000001 * 1000000)) = 1000"
    by (simp_all add: shown_seconds_GetSeconds round6_collapse)
  have wn: "written_times (written (csv (ctx st' ! 0))) ! j =
      shown_seconds (GetSeconds (Suc j * 1000000))" if "j < 1000999" for j
    unfolding written_times_def rt using that n [OF that] by (simp add: nth_map del: upt_Suc)
  have "row_times (written (csv (ctx st' ! 0))) ! 1000000 = 1000001 / 1000"
    unfolding rt using n [of 1000000] a by simp
  moreover have "row_times (written (csv (ctx st' ! 0))) ! 1000001 = 1000002 / 1000"
    unfolding rt using n [of 1000001] b by simp
  moreover have "written_times (written (csv (ctx st' ! 0))) ! 1000000 = 1000"
    using wn [of 1000000] sa by simp
  moreover have "written_times (written (csv (ctx st' ! 0))) ! 1000001 = 1000"
    using wn [of 1000001] sb by simp
  moreover have "Suc (length (pending st) + 1001000000000) = 1001000000004"
    unfolding pl by simp
  ultimately show ?thesis
    using mn by auto
qed

text \<open>
  Claim C6, as stated: in each file the time values of successive data rows are strictly
  increasing, and no row is written for a time at or past the stop time. It fails in
  two ways. With \<open>sampleDt = duration = 2\<close> the run ends with one data row, for the stop
  time itself, 2 s. With \<open>sampleDt = 0.001\<close> and \<open>duration = 1001\<close> the firings at
  1000.001 s and 1000.002 s write two successive rows, and both carry the time 1000.
\<close>

theorem sampler_rows_counterexample:
  "(case main engine_plain args_period_is_duration [] 2000000004 of
      Some (Inr st') \<Rightarrow>
        row_times (written (csv (ctx st' ! 0))) = [2] \<and>
        GetSeconds (Seconds engine_plain (real (unat (duration args_period_is_duration)))) = 2
    | _ \<Rightarrow> False) \<and>
   (case main engine_plain args_millisecond [] 1001000000004 of
      Some (Inr st') \<Rightarrow>
        row_times (written (csv (ctx st' ! 0))) ! 1000000 = 1000001 / 1000 \<and>
        row_times (written (csv (ctx st' ! 0))) ! 1000001 = 1000002 / 1000 \<and>
        written_times (written (csv (ctx st' ! 0))) ! 1000000 = 1000 \<and>
        written_times (written (csv (ctx st' ! 0))) ! 1000001 = 1000
    | _ \<Rightarrow> False)"
proof -
  have T: "GetSeconds (Seconds engine_plain (real (unat (duration args_period_is_duration)))) = 2"
    by (simp add: engine_plain_def args_period_is_duration_def GetSeconds_def)
  obtain s1 where s1: "main engine_plain args_period_is_duration [] 2000000004 = Some (Inr s1)"
    and r1: "row_times (written (csv (ctx s1 ! 0))) = [2]"
    using main_period_is_duration by blast
  obtain s2 where s2: "main engine_plain args_millisecond [] 1001000000004 = Some (Inr s2)"
    and r2: "row_times (written (csv (ctx s2 ! 0))) ! 1000000 = 1000001 / 1000"
      "row_times (written (csv (ctx s2 ! 0))) ! 1000001 = 1000002 / 1000"
      "written_times (written (csv (ctx s2 ! 0))) ! 1000000 = 1000"
      "written_times (written (csv (ctx s2 ! 0))) ! 1000001 = 1000"
    using main_millisecond by blast
  show ?thesis
    unfolding s1 s2 using T r1 r2 by simp
qed

end
